theory Spec2Isabelle
  imports Main "HOL-Library.Word"
begin

unbundle bit_operations_syntax

section \<open>Strings\<close>

text \<open>
  A JavaScript string is a sequence of UTF-16 code units.  The program looks at code units
  beyond Latin-1 (it deletes U+200B, and \<open>\s\<close> covers several Unicode spaces), so strings
  are lists of 16-bit words.  \<open>str\<close> writes an ASCII literal.
\<close>

type_synonym cu = "16 word"
type_synonym jsstring = "cu list"

definition str :: "string \<Rightarrow> jsstring" where
  "str s = map of_char s"

definition isDigit :: "cu \<Rightarrow> bool" where
  \<comment> \<open>the regular-expression class \<open>\d\<close>\<close>
  "isDigit c = (0x30 \<le> c \<and> c \<le> 0x39)"

definition isLineTerminator :: "cu \<Rightarrow> bool" where
  \<comment> \<open>LF, CR, U+2028, U+2029: where \<open>$\<close> matches under the \<open>m\<close> flag\<close>
  "isLineTerminator c = (c = 0x0A \<or> c = 0x0D \<or> c = 0x2028 \<or> c = 0x2029)"

definition isSpace :: "cu \<Rightarrow> bool" where
  \<comment> \<open>the class \<open>\s\<close>, which is also what \<open>trim\<close> strips: WhiteSpace and LineTerminator\<close>
  "isSpace c = (c = 0x09 \<or> c = 0x0A \<or> c = 0x0B \<or> c = 0x0C \<or> c = 0x0D \<or> c = 0x20
      \<or> c = 0xA0 \<or> c = 0x1680 \<or> (0x2000 \<le> c \<and> c \<le> 0x200A) \<or> c = 0x2028 \<or> c = 0x2029
      \<or> c = 0x202F \<or> c = 0x205F \<or> c = 0x3000 \<or> c = 0xFEFF)"

definition isAsciiUpper :: "cu \<Rightarrow> bool" where
  "isAsciiUpper c = (0x41 \<le> c \<and> c \<le> 0x5A)"

definition isAsciiLower :: "cu \<Rightarrow> bool" where
  "isAsciiLower c = (0x61 \<le> c \<and> c \<le> 0x7A)"

definition trimStart :: "jsstring \<Rightarrow> jsstring" where
  "trimStart s = dropWhile isSpace s"

definition trimEnd :: "jsstring \<Rightarrow> jsstring" where
  "trimEnd s = rev (dropWhile isSpace (rev s))"

definition trim :: "jsstring \<Rightarrow> jsstring" where
  "trim s = trimEnd (trimStart s)"

text \<open>
  \<open>String.prototype.toLowerCase\<close> is the platform's.  The model is exact on ASCII; of the
  other code units it maps the two whose lower case contains an ASCII letter (KELVIN SIGN
  and LATIN CAPITAL LETTER I WITH DOT ABOVE) and leaves the rest, whose lower case stays
  outside ASCII, as they are.
\<close>

definition lowerUnit :: "cu \<Rightarrow> jsstring" where
  "lowerUnit c = (if isAsciiUpper c then [c + 0x20]
                  else if c = 0x212A then [0x6B]
                  else if c = 0x0130 then [0x69, 0x0307]
                  else [c])"

definition toLowerCase :: "jsstring \<Rightarrow> jsstring" where
  "toLowerCase s = concat (map lowerUnit s)"

definition eqIgnoreCase :: "cu \<Rightarrow> cu \<Rightarrow> bool" where
  \<comment> \<open>a pattern letter under the \<open>i\<close> flag (no \<open>u\<close> flag): only the two ASCII cases match\<close>
  "eqIgnoreCase p c = (c = p \<or> (isAsciiLower p \<and> c + 0x20 = p \<and> isAsciiUpper c)
                            \<or> (isAsciiUpper p \<and> p + 0x20 = c \<and> isAsciiLower c))"

fun litIgnoreCase :: "jsstring \<Rightarrow> jsstring \<Rightarrow> jsstring option" where
  \<comment> \<open>match a literal at the head of the input, ignoring case; the rest of the input\<close>
  "litIgnoreCase [] cs = Some cs"
| "litIgnoreCase (p # ps) [] = None"
| "litIgnoreCase (p # ps) (c # cs) = (if eqIgnoreCase p c then litIgnoreCase ps cs else None)"

text \<open>
  \<open>s.replace(/re/g, rep)\<close> for a pattern that matches at least one code unit: scan from
  the left, at each position try the pattern, replace the leftmost match and go on after
  it.  The matcher \<open>m\<close> gets the rest of the input and returns the length of its match.
\<close>

function replaceAll :: "(jsstring \<Rightarrow> nat option) \<Rightarrow> jsstring \<Rightarrow> jsstring \<Rightarrow> jsstring" where
  "replaceAll m rep [] = []"
| "replaceAll m rep (c # cs) =
     (case m (c # cs) of
        None \<Rightarrow> c # replaceAll m rep cs
      | Some n \<Rightarrow> rep @ replaceAll m rep (drop (n - 1) cs))"
  by pat_completeness auto
termination
  by (relation "measure (\<lambda>(m, rep, cs). length cs)") auto

section \<open>Merge Engine\<close>

text \<open>
  An entry \<open>{ startMs, role, text }\<close>; the field \<open>text\<close> is \<open>etext\<close> here, and
  \<open>bText\<close> in a block \<open>{ startMs, text }\<close> of the parser.  The roles are the strings the
  code compares.
\<close>

record entry =
  startMs :: int
  role :: jsstring
  etext :: jsstring

subsection \<open>normalizeForCompare\<close>

definition matchOnScreenTail :: "jsstring \<Rightarrow> jsstring option" where
  \<comment> \<open>\<open>screen\s*text\s*:\s*\<close>; every \<open>\s*\<close> is followed by a literal that is no space,
      so the greedy run of spaces is the only way to match\<close>
  "matchOnScreenTail cs =
     (case litIgnoreCase (str ''screen'') cs of None \<Rightarrow> None
      | Some r1 \<Rightarrow>
     (case litIgnoreCase (str ''text'') (dropWhile isSpace r1) of None \<Rightarrow> None
      | Some r2 \<Rightarrow>
     (case litIgnoreCase (str '':'') (dropWhile isSpace r2) of None \<Rightarrow> None
      | Some r3 \<Rightarrow> Some (dropWhile isSpace r3))))"

definition matchOnScreenRest :: "jsstring \<Rightarrow> jsstring option" where
  \<comment> \<open>\<open>on[-\s]?screen\s*text\s*:\s*\<close> at the head of the input; the rest after the match.
      The optional class is greedy: first with it, then without.\<close>
  "matchOnScreenRest cs =
     (case litIgnoreCase (str ''on'') cs of None \<Rightarrow> None
      | Some r \<Rightarrow>
     (case (case r of c # r' \<Rightarrow> if c = 0x2D \<or> isSpace c then matchOnScreenTail r' else None
                    | [] \<Rightarrow> None) of
        Some rest \<Rightarrow> Some rest
      | None \<Rightarrow> matchOnScreenTail r))"

definition matchOnScreen :: "jsstring \<Rightarrow> nat option" where
  "matchOnScreen cs = map_option (\<lambda>rest. length cs - length rest) (matchOnScreenRest cs)"

definition isAlnumLower :: "cu \<Rightarrow> bool" where
  \<comment> \<open>the class \<open>[a-z0-9]\<close>\<close>
  "isAlnumLower c = (isAsciiLower c \<or> isDigit c)"

definition matchNonAlnum :: "jsstring \<Rightarrow> nat option" where
  \<comment> \<open>\<open>[^a-z0-9]+\<close>\<close>
  "matchNonAlnum cs =
     (let n = length (takeWhile (\<lambda>c. \<not> isAlnumLower c) cs) in if n = 0 then None else Some n)"

definition normalizeForCompare :: "jsstring \<Rightarrow> jsstring" where
  "normalizeForCompare s =
     trim (replaceAll matchNonAlnum [] (replaceAll matchOnScreen [] (toLowerCase s)))"

subsection \<open>dedupeNearDuplicates\<close>

text \<open>
  The inner loop \<open>for (j = result.length - 1; j >= 0; j--)\<close>: the counter is \<open>j + 1\<close>.
  It returns the accumulator, updated in place on a role upgrade, and \<open>isDuplicate\<close>.
\<close>

fun scanBack :: "entry list \<Rightarrow> entry \<Rightarrow> int \<Rightarrow> nat \<Rightarrow> entry list \<times> bool" where
  "scanBack result current windowMs 0 = (result, False)"
| "scanBack result current windowMs (Suc j) =
     (let prev = result ! j in
      if startMs current - startMs prev > windowMs then (result, False)
      else if normalizeForCompare (etext prev) = normalizeForCompare (etext current) then
        (if role prev \<noteq> str ''Speaker'' \<and> role current = str ''Speaker''
         then result[j := current] else result, True)
      else scanBack result current windowMs j)"

fun dedupeLoop :: "entry list \<Rightarrow> entry list \<Rightarrow> int \<Rightarrow> entry list" where
  "dedupeLoop [] result windowMs = result"
| "dedupeLoop (current # items) result windowMs =
     (case scanBack result current windowMs (length result) of
        (result', isDuplicate) \<Rightarrow>
          dedupeLoop items (if isDuplicate then result' else result' @ [current]) windowMs)"

definition dedupeNearDuplicates :: "entry list \<Rightarrow> int \<Rightarrow> entry list" where
  "dedupeNearDuplicates items windowMs = dedupeLoop items [] windowMs"

subsection \<open>Ordering\<close>

definition momentOrderValue :: "jsstring \<Rightarrow> int" where
  "momentOrderValue r =
     (if r = str ''Description'' then 0
      else if r = str ''On-screen text'' then 1
      else if r = str ''Speaker'' then 2
      else 3)"

definition compareEntries :: "entry \<Rightarrow> entry \<Rightarrow> int" where
  \<comment> \<open>the comparator passed to \<open>sort\<close> in combineTranscripts\<close>
  "compareEntries a b =
     (if startMs a \<noteq> startMs b then startMs a - startMs b
      else momentOrderValue (role a) - momentOrderValue (role b))"

text \<open>
  \<open>Array.prototype.sort\<close> is stable, and the comparator is a consistent total preorder, so
  the result is the one a stable insertion sort gives.
\<close>

fun insertSorted :: "('a \<Rightarrow> 'a \<Rightarrow> int) \<Rightarrow> 'a \<Rightarrow> 'a list \<Rightarrow> 'a list" where
  "insertSorted cmp x [] = [x]"
| "insertSorted cmp x (y # ys) =
     (if cmp x y \<le> 0 then x # y # ys else y # insertSorted cmp x ys)"

definition sortStable :: "('a \<Rightarrow> 'a \<Rightarrow> int) \<Rightarrow> 'a list \<Rightarrow> 'a list" where
  "sortStable cmp xs = foldr (insertSorted cmp) xs []"

definition mergeOrderDedupe :: "entry list \<Rightarrow> entry list" where
  \<comment> \<open>the sort and the dedup of combineTranscripts, on the combined entries\<close>
  "mergeOrderDedupe combined = dedupeNearDuplicates (sortStable compareEntries combined) 750"


section \<open>Text Normalizer\<close>

definition matchTag :: "jsstring \<Rightarrow> nat option" where
  \<comment> \<open>\<open><[^>]+>\<close>: the body runs to the first \<open>>\<close> and is not empty\<close>
  "matchTag cs =
     (case cs of [] \<Rightarrow> None
      | c # r \<Rightarrow>
          if c = 0x3C then
            (let body = takeWhile (\<lambda>x. x \<noteq> 0x3E) r in
             if body \<noteq> [] \<and> length body < length r then Some (length body + 2) else None)
          else None)"

definition matchBrace :: "jsstring \<Rightarrow> nat option" where
  \<comment> \<open>\<open>\{[^}]*\}\<close>: the body runs to the first closing brace and may be empty\<close>
  "matchBrace cs =
     (case cs of [] \<Rightarrow> None
      | c # r \<Rightarrow>
          if c = 0x7B then
            (let body = takeWhile (\<lambda>x. x \<noteq> 0x7D) r in
             if length body < length r then Some (length body + 2) else None)
          else None)"

definition matchZeroWidth :: "jsstring \<Rightarrow> nat option" where
  \<comment> \<open>the code unit U+200B, ZERO WIDTH SPACE\<close>
  "matchZeroWidth cs = (case cs of [] \<Rightarrow> None | c # r \<Rightarrow> if c = 0x200B then Some 1 else None)"

definition atLineEnd :: "jsstring \<Rightarrow> bool" where
  \<comment> \<open>\<open>$\<close> under the \<open>m\<close> flag: at the end of the input or before a line terminator\<close>
  "atLineEnd r = (case r of [] \<Rightarrow> True | c # _ \<Rightarrow> isLineTerminator c)"

fun longestTrail :: "jsstring \<Rightarrow> nat \<Rightarrow> nat option" where
  \<comment> \<open>backtracking of the greedy \<open>\s+\<close> before \<open>$\<close>: the longest run first, then shorter\<close>
  "longestTrail cs 0 = None"
| "longestTrail cs (Suc n) =
     (if atLineEnd (drop (Suc n) cs) then Some (Suc n) else longestTrail cs n)"

definition matchTrailingSpace :: "jsstring \<Rightarrow> nat option" where
  \<comment> \<open>\<open>\s+$\<close> under the \<open>m\<close> flag\<close>
  "matchTrailingSpace cs = longestTrail cs (length (takeWhile isSpace cs))"

definition isTabFfVt :: "cu \<Rightarrow> bool" where
  \<comment> \<open>the class \<open>[\t\f\v]\<close>\<close>
  "isTabFfVt c = (c = 0x09 \<or> c = 0x0C \<or> c = 0x0B)"

definition matchTabRun :: "jsstring \<Rightarrow> nat option" where
  \<comment> \<open>\<open>[\t\f\v]+\<close>\<close>
  "matchTabRun cs = (let n = length (takeWhile isTabFfVt cs) in if n = 0 then None else Some n)"

definition matchNewlines :: "jsstring \<Rightarrow> nat option" where
  \<comment> \<open>\<open>\n{2,}\<close>\<close>
  "matchNewlines cs =
     (let n = length (takeWhile (\<lambda>c. c = 0x0A) cs) in if 2 \<le> n then Some n else None)"

definition cleanSrtText :: "jsstring \<Rightarrow> jsstring" where
  "cleanSrtText s =
     (let out = s;
          out = replaceAll matchTag [] out;
          out = replaceAll matchBrace [] out;
          out = replaceAll matchZeroWidth [] out;
          out = replaceAll matchTrailingSpace [] out;
          out = replaceAll matchTabRun [0x20] out;
          out = replaceAll matchNewlines [0x0A] out
      in trim out)"

text \<open>
  What each replacement of cleanSrtText leaves behind: no \<open><\<close> that could still open a
  tag (it is directly followed by \<open>>\<close> or no \<open>>\<close> follows it at all), no opening brace
  with a closing brace after it, and no white space directly before a line terminator
  or the end of the text.
\<close>

fun tagFree :: "jsstring \<Rightarrow> bool" where
  "tagFree [] = True"
| "tagFree (c # cs) =
     ((c = 0x3C \<longrightarrow> cs = [] \<or> hd cs = 0x3E \<or> 0x3E \<notin> set cs) \<and> tagFree cs)"

fun braceFree :: "jsstring \<Rightarrow> bool" where
  "braceFree [] = True"
| "braceFree (c # cs) = ((c = 0x7B \<longrightarrow> 0x7D \<notin> set cs) \<and> braceFree cs)"

fun wsClean :: "jsstring \<Rightarrow> bool" where
  "wsClean [] = True"
| "wsClean (c # cs) = ((isSpace c \<longrightarrow> \<not> atLineEnd cs) \<and> wsClean cs)"

section \<open>Track Parser\<close>

record block =
  bStartMs :: int
  bText :: jsstring

datatype error = TypeError

definition matchCrLf :: "jsstring \<Rightarrow> nat option" where
  \<comment> \<open>\<open>\r\n\<close>\<close>
  "matchCrLf cs = (case cs of c # d # _ \<Rightarrow> if c = 0x0D \<and> d = 0x0A then Some 2 else None
                   | _ \<Rightarrow> None)"

definition matchCr :: "jsstring \<Rightarrow> nat option" where
  \<comment> \<open>\<open>\r\<close>\<close>
  "matchCr cs = (case cs of [] \<Rightarrow> None | c # _ \<Rightarrow> if c = 0x0D then Some 1 else None)"

fun splitOn :: "cu \<Rightarrow> jsstring \<Rightarrow> jsstring list" where
  \<comment> \<open>\<open>s.split(sep)\<close> for a separator of one code unit\<close>
  "splitOn sep [] = [] # []"
| "splitOn sep (c # cs) =
     (if c = sep then [] # splitOn sep cs
      else (case splitOn sep cs of [] \<Rightarrow> [c] # [] | l # ls \<Rightarrow> (c # l) # ls))"

fun join :: "jsstring \<Rightarrow> jsstring list \<Rightarrow> jsstring" where
  \<comment> \<open>\<open>xs.join(sep)\<close>\<close>
  "join sep [] = []"
| "join sep [x] = x"
| "join sep (x # y # ys) = x @ sep @ join sep (y # ys)"

definition isIndexLine :: "jsstring \<Rightarrow> bool" where
  \<comment> \<open>\<open>/^\d+$/.test\<close>\<close>
  "isIndexLine s = (s \<noteq> [] \<and> list_all isDigit s)"

definition takeDigits :: "nat \<Rightarrow> jsstring \<Rightarrow> (jsstring \<times> jsstring) option" where
  \<comment> \<open>\<open>(\d{n})\<close>: the capture and the rest\<close>
  "takeDigits n cs =
     (if n \<le> length cs \<and> list_all isDigit (take n cs) then Some (take n cs, drop n cs) else None)"

fun litExact :: "jsstring \<Rightarrow> jsstring \<Rightarrow> jsstring option" where
  "litExact [] cs = Some cs"
| "litExact (p # ps) [] = None"
| "litExact (p # ps) (c # cs) = (if p = c then litExact ps cs else None)"

definition matchTimestamp ::
  "jsstring \<Rightarrow> ((jsstring \<times> jsstring \<times> jsstring \<times> jsstring) \<times> jsstring) option" where
  \<comment> \<open>\<open>(\d{2}):(\d{2}):(\d{2}),(\d{3})\<close>\<close>
  "matchTimestamp cs =
     (case takeDigits 2 cs of None \<Rightarrow> None | Some (h, r1) \<Rightarrow>
     (case litExact (str '':'') r1 of None \<Rightarrow> None | Some r2 \<Rightarrow>
     (case takeDigits 2 r2 of None \<Rightarrow> None | Some (m, r3) \<Rightarrow>
     (case litExact (str '':'') r3 of None \<Rightarrow> None | Some r4 \<Rightarrow>
     (case takeDigits 2 r4 of None \<Rightarrow> None | Some (s, r5) \<Rightarrow>
     (case litExact (str '','') r5 of None \<Rightarrow> None | Some r6 \<Rightarrow>
     (case takeDigits 3 r6 of None \<Rightarrow> None | Some (ms, r7) \<Rightarrow>
        Some ((h, m, s, ms), r7))))))))"

definition matchTimecodeAt ::
  "jsstring \<Rightarrow> (jsstring \<times> jsstring \<times> jsstring \<times> jsstring) option" where
  \<comment> \<open>timecodeRegex at the head of the input; the captures 1 to 4.  Each \<open>\s*\<close> is
      followed by a literal or a digit, so the greedy run is the only way to match.\<close>
  "matchTimecodeAt cs =
     (case matchTimestamp cs of None \<Rightarrow> None | Some (start, r1) \<Rightarrow>
     (case litExact (str ''-->'') (dropWhile isSpace r1) of None \<Rightarrow> None | Some r2 \<Rightarrow>
     (case matchTimestamp (dropWhile isSpace r2) of None \<Rightarrow> None | Some (end, r3) \<Rightarrow>
        Some start)))"

fun timecodeExec :: "jsstring \<Rightarrow> (jsstring \<times> jsstring \<times> jsstring \<times> jsstring) option" where
  \<comment> \<open>\<open>timecodeRegex.exec\<close>: the leftmost match anywhere in the line\<close>
  "timecodeExec [] = None"
| "timecodeExec (c # cs) =
     (case matchTimecodeAt (c # cs) of Some caps \<Rightarrow> Some caps | None \<Rightarrow> timecodeExec cs)"

definition parseInt :: "jsstring \<Rightarrow> int" where
  \<comment> \<open>\<open>parseInt(s, 10)\<close> on the captures, which are decimal digits\<close>
  "parseInt s = foldl (\<lambda>acc c. acc * 10 + (uint c - 0x30)) 0 (takeWhile isDigit s)"

definition hhmmssToMs :: "jsstring \<Rightarrow> jsstring \<Rightarrow> jsstring \<Rightarrow> jsstring \<Rightarrow> int" where
  "hhmmssToMs h m s ms =
     (let hh = parseInt h; mm = parseInt m; ss = parseInt s; mss = parseInt ms
      in ((hh * 60 + mm) * 60 + ss) * 1000 + mss)"

definition lineAt :: "jsstring list \<Rightarrow> nat \<Rightarrow> jsstring option" where
  \<comment> \<open>\<open>lines[i]\<close>: \<open>None\<close> is \<open>undefined\<close>, what JavaScript reads out of range\<close>
  "lineAt lines i = (if i < length lines then Some (lines ! i) else None)"

function collectText :: "jsstring list \<Rightarrow> nat \<Rightarrow> jsstring list \<Rightarrow> jsstring list \<times> nat" where
  \<comment> \<open>\<open>while (i < lines.length && lines[i].trim() !== "") { textLines.push(lines[i]); i++ }\<close>\<close>
  "collectText lines i textLines =
     (if i < length lines \<and> trim (lines ! i) \<noteq> []
      then collectText lines (i + 1) (textLines @ [lines ! i])
      else (textLines, i))"
  by pat_completeness auto
termination
  by (relation "measure (\<lambda>(lines, i, textLines). length lines - i)") auto

declare collectText.simps [simp del]

function skipBlank :: "jsstring list \<Rightarrow> nat \<Rightarrow> nat" where
  \<comment> \<open>\<open>while (i < lines.length && lines[i].trim() === "") i++\<close>\<close>
  "skipBlank lines i =
     (if i < length lines \<and> trim (lines ! i) = [] then skipBlank lines (i + 1) else i)"
  by pat_completeness auto
termination
  by (relation "measure (\<lambda>(lines, i). length lines - i)") auto

declare skipBlank.simps [simp del]

text \<open>
  The main loop of parseSrtToBlocks.  \<open>lines[i].trim()\<close> on \<open>undefined\<close> would throw a
  TypeError, \<open>lines[i] || ""\<close> reads \<open>undefined\<close> as the empty string.
\<close>

function parseLoop :: "jsstring list \<Rightarrow> nat \<Rightarrow> block list \<Rightarrow> error + block list" where
  "parseLoop lines i blocks =
     (if i < length lines then
        (case lineAt lines i of
           None \<Rightarrow> Inl TypeError
         | Some l \<Rightarrow>
             (let i1 = (if isIndexLine (trim l) then i + 1 else i) in
              case timecodeExec (case lineAt lines i1 of None \<Rightarrow> [] | Some l1 \<Rightarrow> l1) of
                None \<Rightarrow> parseLoop lines (i1 + 1) blocks
              | Some (h, m, s, ms) \<Rightarrow>
                  (case collectText lines (i1 + 1) [] of
                     (textLines, i2) \<Rightarrow>
                       (let i3 = skipBlank lines i2;
                            text = cleanSrtText (join [0x0A] textLines)
                        in parseLoop lines i3
                             (if trim text \<noteq> []
                              then blocks @ [\<lparr>bStartMs = hhmmssToMs h m s ms, bText = text\<rparr>]
                              else blocks)))))
      else Inr blocks)"
  by pat_completeness auto
termination
proof (relation "measure (\<lambda>(lines, i, blocks). length lines - i)")
  have collect_le: "i \<le> snd (collectText lines i acc)" for lines i acc
  proof (induction lines i acc rule: collectText.induct)
    case (1 lines i textLines)
    show ?case
    proof (cases "i < length lines \<and> trim (lines ! i) \<noteq> []")
      case True
      then have "collectText lines i textLines = collectText lines (i + 1) (textLines @ [lines ! i])"
        by (subst collectText.simps) simp
      with 1 True show ?thesis by simp
    next
      case False
      then have "collectText lines i textLines = (textLines, i)"
        by (subst collectText.simps) auto
      then show ?thesis by simp
    qed
  qed
  have skip_le: "i \<le> skipBlank lines i" for lines i
  proof (induction lines i rule: skipBlank.induct)
    case (1 lines i)
    show ?case
    proof (cases "i < length lines \<and> trim (lines ! i) = []")
      case True
      then have "skipBlank lines i = skipBlank lines (i + 1)"
        by (subst skipBlank.simps) simp
      with 1 True show ?thesis by simp
    next
      case False
      then have "skipBlank lines i = i"
        by (subst skipBlank.simps) auto
      then show ?thesis by simp
    qed
  qed
  show "wf (measure (\<lambda>(lines, i, blocks). length lines - i))" by simp
  show "((lines, i1 + 1, blocks), lines, i, blocks) \<in> measure (\<lambda>(lines, i, blocks). length lines - i)"
    if "i < length lines" and "i1 = (if isIndexLine (trim l) then i + 1 else i)"
    for lines i blocks l i1
    using that by auto
  show "((lines, i3, bs), lines, i, blocks) \<in> measure (\<lambda>(lines, i, blocks). length lines - i)"
    if "i < length lines" and "i1 = (if isIndexLine (trim l) then i + 1 else i)"
      and "(textLines, i2) = collectText lines (i1 + 1) []" and "i3 = skipBlank lines i2"
    for lines i blocks l i1 textLines i2 i3 bs
  proof -
    have "i1 + 1 \<le> i2" using collect_le [of "i1 + 1" lines "[]"] that(3) [symmetric] by simp
    moreover have "i2 \<le> i3" using skip_le [of i2 lines] that(4) by simp
    moreover have "i \<le> i1" using that(2) by simp
    ultimately show ?thesis using that(1) by auto
  qed
qed

declare parseLoop.simps [simp del]

definition parseSrtToBlocks :: "jsstring \<Rightarrow> error + block list" where
  "parseSrtToBlocks srtString =
     (let lines = splitOn 0x0A (replaceAll matchCr [0x0A] (replaceAll matchCrLf [0x0A] srtString))
      in parseLoop lines 0 [])"

section \<open>Tagger\<close>

function splitNewlines :: "jsstring \<Rightarrow> jsstring list" where
  \<comment> \<open>\<open>s.split(/\n+/)\<close>: every maximal run of line feeds is one separator\<close>
  "splitNewlines [] = [] # []"
| "splitNewlines (c # cs) =
     (if c = 0x0A then [] # splitNewlines (dropWhile (\<lambda>x. x = 0x0A) cs)
      else (case splitNewlines cs of [] \<Rightarrow> [c] # [] | l # ls \<Rightarrow> (c # l) # ls))"
  by pat_completeness auto
termination
  by (relation "measure length") (auto intro: le_imp_less_Suc length_dropWhile_le)

definition nonEmptyTrimmedLines :: "jsstring \<Rightarrow> jsstring list" where
  \<comment> \<open>\<open>s.split(/\n+/).map(l => l.trim()).filter(Boolean)\<close>\<close>
  "nonEmptyTrimmedLines s = filter (\<lambda>l. l \<noteq> []) (map trim (splitNewlines s))"

definition tagDescriptiveBlock :: "block \<Rightarrow> entry" where
  \<comment> \<open>onScreenRegex is anchored at the start and begins with \<open>\s*\<close>; \<open>lines[0] = ...\<close>
      on an empty array would create the element\<close>
  "tagDescriptiveBlock b =
     (let lines = nonEmptyTrimmedLines (bText b);
          first = (case lines of [] \<Rightarrow> [] | l # _ \<Rightarrow> l)
      in case matchOnScreenRest (dropWhile isSpace first) of
           Some rest \<Rightarrow>
             \<lparr>startMs = bStartMs b, role = str ''On-screen text'',
              etext = join [0x20] (case lines of [] \<Rightarrow> [trim rest] | _ # ls \<Rightarrow> trim rest # ls)\<rparr>
         | None \<Rightarrow>
             \<lparr>startMs = bStartMs b, role = str ''Description'', etext = join [0x20] lines\<rparr>)"

definition tagDescriptiveBlocks :: "block list \<Rightarrow> entry list" where
  "tagDescriptiveBlocks blocks = map tagDescriptiveBlock blocks"

definition joinLinesPreservingSentence :: "jsstring \<Rightarrow> jsstring" where
  "joinLinesPreservingSentence s = join [0x20] (nonEmptyTrimmedLines s)"

definition tagSpokenBlocks :: "block list \<Rightarrow> entry list" where
  "tagSpokenBlocks blocks =
     map (\<lambda>b. \<lparr>startMs = bStartMs b, role = str ''Speaker'',
                etext = joinLinesPreservingSentence (bText b)\<rparr>) blocks"

section \<open>Consolidation and rendering\<close>

definition matchSpaceRun :: "jsstring \<Rightarrow> nat option" where
  \<comment> \<open>\<open>\s+\<close>\<close>
  "matchSpaceRun cs = (let n = length (takeWhile isSpace cs) in if n = 0 then None else Some n)"

fun mergeLoop :: "entry list \<Rightarrow> entry list \<Rightarrow> entry list" where
  \<comment> \<open>the loop of mergeAdjacentSpeakers; \<open>last\<close> is \<open>undefined\<close> while \<open>merged\<close> is empty.
      Every element of \<open>merged\<close> is a copy, so writing \<open>last.text\<close> touches nothing else.\<close>
  "mergeLoop [] merged = merged"
| "mergeLoop (item # items) merged =
     (if merged \<noteq> [] \<and> role (last merged) = str ''Speaker'' \<and> role item = str ''Speaker''
      then mergeLoop items
             (butlast merged @
                [(last merged)\<lparr>etext :=
                    trim (replaceAll matchSpaceRun [0x20]
                            (etext (last merged) @ [0x20] @ etext item))\<rparr>])
      else mergeLoop items (merged @ [item]))"

definition mergeAdjacentSpeakers :: "entry list \<Rightarrow> entry list" where
  "mergeAdjacentSpeakers items = mergeLoop items []"

definition renderEntries :: "entry list \<Rightarrow> jsstring" where
  "renderEntries items =
     join [0x0A, 0x0A] (map (\<lambda>item. role item @ str '': '' @ etext item) items)"

definition combineTranscripts :: "jsstring \<Rightarrow> jsstring \<Rightarrow> error + jsstring" where
  "combineTranscripts spokenSrt descriptiveSrt =
     (case parseSrtToBlocks spokenSrt of Inl e \<Rightarrow> Inl e | Inr sb \<Rightarrow>
     (case parseSrtToBlocks descriptiveSrt of Inl e \<Rightarrow> Inl e | Inr db \<Rightarrow>
        (let spoken = tagSpokenBlocks sb;
             desc = tagDescriptiveBlocks db;
             combined = sortStable compareEntries (spoken @ desc);
             deduped = dedupeNearDuplicates combined 750;
             mergedSpeakers = mergeAdjacentSpeakers deduped
         in Inr (renderEntries mergedSpeakers))))"

section \<open>Identifier extraction\<close>

definition isAsciiLetter :: "cu \<Rightarrow> bool" where
  \<comment> \<open>the class \<open>[a-zA-Z]\<close>; under the \<open>i\<close> flag without \<open>u\<close> no other code unit joins it\<close>
  "isAsciiLetter c = (isAsciiLower c \<or> isAsciiUpper c)"

definition matchYtpAt :: "jsstring \<Rightarrow> (jsstring \<times> jsstring option) option" where
  \<comment> \<open>\<open>/YTP26-(\d{3})([a-zA-Z])?/i\<close> at the head of the input: capture 1, and capture 2,
      which is \<open>None\<close> (\<open>undefined\<close>) when the optional group does not take part\<close>
  "matchYtpAt cs =
     (case litIgnoreCase (str ''YTP26-'') cs of None \<Rightarrow> None | Some r1 \<Rightarrow>
     (case takeDigits 3 r1 of None \<Rightarrow> None | Some (digits, r2) \<Rightarrow>
        Some (digits, case r2 of [] \<Rightarrow> None
                      | c # _ \<Rightarrow> if isAsciiLetter c then Some [c] else None)))"

fun ytpSearch :: "jsstring \<Rightarrow> (jsstring \<times> jsstring option) option" where
  \<comment> \<open>\<open>s.match(re)\<close> without the \<open>g\<close> flag: the leftmost match\<close>
  "ytpSearch [] = None"
| "ytpSearch (c # cs) =
     (case matchYtpAt (c # cs) of Some caps \<Rightarrow> Some caps | None \<Rightarrow> ytpSearch cs)"

definition extractYtpId :: "jsstring \<Rightarrow> jsstring option" where
  \<comment> \<open>\<open>None\<close> is \<open>null\<close>\<close>
  "extractYtpId s =
     (if s = [] then None
      else case ytpSearch s of
             None \<Rightarrow> None
           | Some (digits, m2) \<Rightarrow>
               (let letter = (case m2 of Some l \<Rightarrow> toLowerCase l | None \<Rightarrow> [])
                in Some (str ''YTP26-'' @ digits @ letter)))"

definition buildOutputFilename :: "jsstring \<Rightarrow> jsstring \<Rightarrow> jsstring" where
  \<comment> \<open>\<open>a || b\<close>: the identifier is never the empty string, so \<open>||\<close> falls through on
      \<open>null\<close> only\<close>
  "buildOutputFilename spokenFilename spokenContent =
     (case (case extractYtpId spokenFilename of Some i \<Rightarrow> Some i
                 | None \<Rightarrow> extractYtpId spokenContent) of
        Some i \<Rightarrow> i @ str ''_Descriptive_Transcript.txt''
      | None \<Rightarrow> str ''combined_transcript.txt'')"

text \<open>
  What the claim about extractYtpId calls a case-insensitive match, written without the
  matcher: at position \<open>k\<close> stand six code units that are \<open>YTP26-\<close> up to ASCII case, then
  three digits.  \<open>ytpIdAt\<close> is the identifier the claim expects from the match there.
\<close>

definition asciiUpperUnit :: "cu \<Rightarrow> cu" where
  "asciiUpperUnit c = (if isAsciiLower c then c - 0x20 else c)"

definition asciiLowerUnit :: "cu \<Rightarrow> cu" where
  "asciiLowerUnit c = (if isAsciiUpper c then c + 0x20 else c)"

definition ytpOccursAt :: "jsstring \<Rightarrow> nat \<Rightarrow> bool" where
  "ytpOccursAt s k =
     (k + 9 \<le> length s \<and> map asciiUpperUnit (take 6 (drop k s)) = str ''YTP26-'' \<and>
      list_all isDigit (take 3 (drop (k + 6) s)))"

definition ytpIdAt :: "jsstring \<Rightarrow> nat \<Rightarrow> jsstring" where
  "ytpIdAt s k =
     str ''YTP26-'' @ take 3 (drop (k + 6) s) @
     (case drop (k + 9) s of [] \<Rightarrow> []
      | c # _ \<Rightarrow> if isAsciiLetter c then [asciiLowerUnit c] else [])"

section \<open>Archive Writer\<close>

type_synonym byte = "8 word"

text \<open>
  \<open>TextEncoder.encode\<close> is the platform's: UTF-8, a surrogate pair as one code point, a
  lone surrogate as U+FFFD.
\<close>

definition isSurrogate :: "cu \<Rightarrow> bool" where
  "isSurrogate c = (0xD800 \<le> c \<and> c \<le> 0xDFFF)"

definition utf8CodePoint :: "nat \<Rightarrow> byte list" where
  "utf8CodePoint cp =
     (if cp < 0x80 then [of_nat cp]
      else if cp < 0x800 then [of_nat (0xC0 + cp div 64), of_nat (0x80 + cp mod 64)]
      else if cp < 0x10000 then
        [of_nat (0xE0 + cp div 4096), of_nat (0x80 + cp div 64 mod 64), of_nat (0x80 + cp mod 64)]
      else
        [of_nat (0xF0 + cp div 262144), of_nat (0x80 + cp div 4096 mod 64),
         of_nat (0x80 + cp div 64 mod 64), of_nat (0x80 + cp mod 64)])"

fun utf8Encode :: "jsstring \<Rightarrow> byte list" where
  "utf8Encode [] = []"
| "utf8Encode [c] = utf8CodePoint (if isSurrogate c then 0xFFFD else unat c)"
| "utf8Encode (c # d # cs) =
     (if 0xD800 \<le> c \<and> c \<le> 0xDBFF \<and> 0xDC00 \<le> d \<and> d \<le> 0xDFFF
      then utf8CodePoint (0x10000 + (unat c - 0xD800) * 1024 + (unat d - 0xDC00)) @ utf8Encode cs
      else utf8CodePoint (if isSurrogate c then 0xFFFD else unat c) @ utf8Encode (d # cs))"

text \<open>
  \<open>new Date()\<close> reads the system clock; the fields are those the local-time getters
  return.  The writer reads the clock twice for each file.
\<close>

record date =
  getFullYear :: nat
  getMonth :: nat
  getDate :: nat
  getHours :: nat
  getMinutes :: nat
  getSeconds :: nat

definition dosTime :: "date \<Rightarrow> nat" where
  \<comment> \<open>\<open>&\<close> binds tighter than \<open>|\<close>, and \<open>&\<close> truncates the quotient to an integer\<close>
  "dosTime d =
     unat ((push_bit 11 (of_nat (getHours d)) OR push_bit 5 (of_nat (getMinutes d)) OR
            (of_nat (getSeconds d div 2) AND 0x1f)) :: 32 word)"

definition dosDate :: "date \<Rightarrow> nat" where
  "dosDate d =
     unat ((push_bit 9 (of_int (int (getFullYear d) - 1980) AND 0x7f) OR
            push_bit 5 (of_nat (getMonth d + 1)) OR of_nat (getDate d)) :: 32 word)"

fun crcBits :: "nat \<Rightarrow> 32 word \<Rightarrow> 32 word" where
  \<comment> \<open>the inner loop over \<open>k\<close>; \<open>>>>\<close> is the logical shift\<close>
  "crcBits 0 c = c"
| "crcBits (Suc k) c =
     crcBits k (if c AND 1 \<noteq> 0 then 0xEDB88320 XOR drop_bit 1 c else drop_bit 1 c)"

definition crc32 :: "byte list \<Rightarrow> 32 word" where
  "crc32 buf = NOT (foldl (\<lambda>c b. crcBits 8 (c XOR ucast b)) (NOT 0) buf)"

text \<open>
  A DataView over a fresh buffer and the running position \<open>p\<close>: each \<open>put\<close> is one
  \<open>setUintN(p, v, true); p += N/8\<close>.  The value is reduced modulo \<open>2^N\<close> and stored
  little-endian.
\<close>

definition setUint16 :: "byte list \<Rightarrow> nat \<Rightarrow> nat \<Rightarrow> byte list" where
  "setUint16 buf p v = buf[p := of_nat v, p + 1 := of_nat (v div 256)]"

definition setUint32 :: "byte list \<Rightarrow> nat \<Rightarrow> nat \<Rightarrow> byte list" where
  "setUint32 buf p v =
     buf[p := of_nat v, p + 1 := of_nat (v div 256), p + 2 := of_nat (v div 65536),
         p + 3 := of_nat (v div 16777216)]"

definition putU16 :: "nat \<Rightarrow> byte list \<times> nat \<Rightarrow> byte list \<times> nat" where
  "putU16 v dv = (setUint16 (fst dv) (snd dv) v, snd dv + 2)"

definition putU32 :: "nat \<Rightarrow> byte list \<times> nat \<Rightarrow> byte list \<times> nat" where
  "putU32 v dv = (setUint32 (fst dv) (snd dv) v, snd dv + 4)"

definition localHeader :: "nat \<Rightarrow> nat \<Rightarrow> 32 word \<Rightarrow> nat \<Rightarrow> nat \<Rightarrow> byte list" where
  "localHeader modTime modDate crc fsize nameLen =
     (let dv = (replicate 30 0, 0);
          dv = putU32 0x04034b50 dv;
          dv = putU16 20 dv;
          dv = putU16 0 dv;
          dv = putU16 0 dv;
          dv = putU16 modTime dv;
          dv = putU16 modDate dv;
          dv = putU32 (unat crc) dv;
          dv = putU32 fsize dv;
          dv = putU32 fsize dv;
          dv = putU16 nameLen dv;
          dv = putU16 0 dv
      in fst dv)"

definition centralHeader :: "nat \<Rightarrow> nat \<Rightarrow> 32 word \<Rightarrow> nat \<Rightarrow> nat \<Rightarrow> nat \<Rightarrow> byte list" where
  "centralHeader modTime modDate crc fsize nameLen localHeaderOffset =
     (let dv = (replicate 46 0, 0);
          dv = putU32 0x02014b50 dv;
          dv = putU16 20 dv;
          dv = putU16 20 dv;
          dv = putU16 0 dv;
          dv = putU16 0 dv;
          dv = putU16 modTime dv;
          dv = putU16 modDate dv;
          dv = putU32 (unat crc) dv;
          dv = putU32 fsize dv;
          dv = putU32 fsize dv;
          dv = putU16 nameLen dv;
          dv = putU16 0 dv;
          dv = putU16 0 dv;
          dv = putU16 0 dv;
          dv = putU16 0 dv;
          dv = putU32 0 dv;
          dv = putU32 localHeaderOffset dv
      in fst dv)"

definition endRecord :: "nat \<Rightarrow> nat \<Rightarrow> nat \<Rightarrow> byte list" where
  "endRecord entries centralSize centralStart =
     (let dv = (replicate 22 0, 0);
          dv = putU32 0x06054b50 dv;
          dv = putU16 0 dv;
          dv = putU16 0 dv;
          dv = putU16 entries dv;
          dv = putU16 entries dv;
          dv = putU32 centralSize dv;
          dv = putU32 centralStart dv;
          dv = putU16 0 dv
      in fst dv)"

record zipWriter =
  centralDirectory :: "(byte list \<times> byte list) list"
  offset :: nat
  chunks :: "byte list list"

definition newZipWriter :: zipWriter where
  \<comment> \<open>the field \<open>files\<close> of the class is never read or written after the constructor\<close>
  "newZipWriter = \<lparr>centralDirectory = [], offset = 0, chunks = []\<rparr>"

definition addFile :: "date \<Rightarrow> date \<Rightarrow> jsstring \<Rightarrow> byte list \<Rightarrow> zipWriter \<Rightarrow> zipWriter" where
  \<comment> \<open>\<open>d1\<close> and \<open>d2\<close> are the two clock readings\<close>
  "addFile d1 d2 name data w =
     (let nameBytes = utf8Encode name;
          crc = crc32 data;
          fsize = length data;
          modTime = dosTime d1;
          modDate = dosDate d2;
          lh = localHeader modTime modDate crc fsize (length nameBytes);
          w = w\<lparr>chunks := chunks w @ [lh]\<rparr>;
          w = w\<lparr>chunks := chunks w @ [nameBytes]\<rparr>;
          w = w\<lparr>chunks := chunks w @ [data]\<rparr>;
          localHeaderOffset = offset w;
          w = w\<lparr>offset := offset w + length lh + length nameBytes + fsize\<rparr>;
          central = centralHeader modTime modDate crc fsize (length nameBytes) localHeaderOffset
      in w\<lparr>centralDirectory := centralDirectory w @ [(central, nameBytes)]\<rparr>)"

fun pushCentral :: "(byte list \<times> byte list) list \<Rightarrow> zipWriter \<Rightarrow> zipWriter" where
  \<comment> \<open>the loop over \<open>this.centralDirectory\<close> in toUint8Array\<close>
  "pushCentral [] w = w"
| "pushCentral (entry # entries) w =
     pushCentral entries
       (w\<lparr>chunks := chunks w @ [fst entry, snd entry],
          offset := offset w + length (fst entry) + length (snd entry)\<rparr>)"

definition toUint8Array :: "zipWriter \<Rightarrow> byte list" where
  "toUint8Array w0 =
     (let centralStart = offset w0;
          w = pushCentral (centralDirectory w0) w0;
          centralSize = offset w - centralStart;
          e = endRecord (length (centralDirectory w)) centralSize centralStart;
          w = w\<lparr>chunks := chunks w @ [e]\<rparr>
      in concat (chunks w))"

record outputFile =
  name :: jsstring
  content :: jsstring

fun addFiles :: "(nat \<Rightarrow> date) \<Rightarrow> nat \<Rightarrow> outputFile list \<Rightarrow> zipWriter \<Rightarrow> zipWriter" where
  \<comment> \<open>the loop of buildZip; \<open>clock n\<close> is the \<open>n\<close>-th reading of the system clock\<close>
  "addFiles clock n [] w = w"
| "addFiles clock n (f # files) w =
     addFiles clock (n + 2) files
       (addFile (clock n) (clock (n + 1)) (name f) (utf8Encode (content f)) w)"

definition buildZip :: "(nat \<Rightarrow> date) \<Rightarrow> outputFile list \<Rightarrow> byte list" where
  "buildZip clock files = toUint8Array (addFiles clock 0 files newZipWriter)"

subsection \<open>Reading the archive back\<close>

text \<open>
  What the claim about the offsets compares: a 32-bit little-endian field read from the
  final buffer (\<open>DataView.getUint32(p, true)\<close>), and the positions at which the
  structures lie, counted from the sizes of what precedes them.
\<close>

definition getUint32 :: "byte list \<Rightarrow> nat \<Rightarrow> nat" where
  "getUint32 buf p =
     unat (buf ! p) + 256 * unat (buf ! (p + 1)) + 65536 * unat (buf ! (p + 2)) +
     16777216 * unat (buf ! (p + 3))"

definition le16 :: "nat \<Rightarrow> byte list" where
  "le16 v = [of_nat v, of_nat (v div 256)]"

definition le32 :: "nat \<Rightarrow> byte list" where
  "le32 v = [of_nat v, of_nat (v div 256), of_nat (v div 65536), of_nat (v div 16777216)]"

definition localSize :: "outputFile \<Rightarrow> nat" where
  \<comment> \<open>the local header, the file name and the data of one file\<close>
  "localSize f = 30 + length (utf8Encode (name f)) + length (utf8Encode (content f))"

definition centralRecSize :: "outputFile \<Rightarrow> nat" where
  \<comment> \<open>the central directory record of one file and its file name\<close>
  "centralRecSize f = 46 + length (utf8Encode (name f))"

definition localPos :: "outputFile list \<Rightarrow> nat \<Rightarrow> nat" where
  "localPos files i = sum_list (map localSize (take i files))"

definition centralStartPos :: "outputFile list \<Rightarrow> nat" where
  "centralStartPos files = sum_list (map localSize files)"

definition centralPos :: "outputFile list \<Rightarrow> nat \<Rightarrow> nat" where
  "centralPos files i = centralStartPos files + sum_list (map centralRecSize (take i files))"

definition centralTotal :: "outputFile list \<Rightarrow> nat" where
  "centralTotal files = sum_list (map centralRecSize files)"

definition endPos :: "outputFile list \<Rightarrow> nat" where
  "endPos files = centralStartPos files + centralTotal files"

definition bytesAt :: "byte list \<Rightarrow> nat \<Rightarrow> nat \<Rightarrow> byte list" where
  \<comment> \<open>the \<open>n\<close> bytes of the buffer from position \<open>p\<close>\<close>
  "bytesAt buf p n = take n (drop p buf)"

text \<open>
  The bytes the loop of buildZip has pushed for the files, and the central directory
  entries it has recorded, for a writer that starts at clock reading \<open>n\<close> and offset
  \<open>base\<close>.
\<close>

fun localPart :: "(nat \<Rightarrow> date) \<Rightarrow> nat \<Rightarrow> outputFile list \<Rightarrow> byte list" where
  "localPart clock n [] = []"
| "localPart clock n (f # files) =
     localHeader (dosTime (clock n)) (dosDate (clock (n + 1))) (crc32 (utf8Encode (content f)))
       (length (utf8Encode (content f))) (length (utf8Encode (name f))) @
     utf8Encode (name f) @ utf8Encode (content f) @ localPart clock (n + 2) files"

fun centralPart ::
  "(nat \<Rightarrow> date) \<Rightarrow> nat \<Rightarrow> nat \<Rightarrow> outputFile list \<Rightarrow> (byte list \<times> byte list) list" where
  "centralPart clock n base [] = []"
| "centralPart clock n base (f # files) =
     (centralHeader (dosTime (clock n)) (dosDate (clock (n + 1))) (crc32 (utf8Encode (content f)))
        (length (utf8Encode (content f))) (length (utf8Encode (name f))) base,
      utf8Encode (name f)) #
     centralPart clock (n + 2) (base + localSize f) files"

definition centralBytes :: "(byte list \<times> byte list) list \<Rightarrow> byte list" where
  "centralBytes entries = concat (map (\<lambda>entry. fst entry @ snd entry) entries)"

section \<open>Orchestrator: the click handler of the Combine button\<close>

text \<open>
  The handler gets the selected files already read (\<open>File.name\<close> and the text that
  \<open>File.text()\<close> resolves to) and the page elements it writes to.  \<open>downloadHref\<close> holds
  the blob behind the object URL.
\<close>

record inputFile =
  fileName :: jsstring
  fileText :: jsstring

datatype blob = TextBlob jsstring | ZipBlob "byte list"

record page =
  statusText :: jsstring
  downloadHref :: "blob option"
  downloadName :: jsstring
  downloadBtnText :: jsstring
  downloadBtnDisabled :: bool

function showNat :: "nat \<Rightarrow> jsstring" where
  \<comment> \<open>a length inside a template literal: its decimal digits\<close>
  "showNat n = (if n < 10 then [0x30 + of_nat n]
                else showNat (n div 10) @ [0x30 + of_nat (n mod 10)])"
  by pat_completeness auto
termination
  by (relation "measure id") auto

declare showNat.simps [simp del]

definition idOf :: "inputFile \<Rightarrow> jsstring option" where
  \<comment> \<open>\<open>extractYtpId(f.name) || extractYtpId(content)\<close>; an identifier is never empty\<close>
  "idOf f = (case extractYtpId (fileName f) of Some i \<Rightarrow> Some i
             | None \<Rightarrow> extractYtpId (fileText f))"

fun indexDesc ::
  "inputFile list \<Rightarrow> (jsstring \<rightharpoonup> inputFile list) \<Rightarrow> (jsstring \<rightharpoonup> inputFile list)" where
  \<comment> \<open>the loop that fills the Map \<open>idToDesc\<close>\<close>
  "indexDesc [] idToDesc = idToDesc"
| "indexDesc (d # ds) idToDesc =
     (case idOf d of
        None \<Rightarrow> indexDesc ds idToDesc
      | Some i \<Rightarrow>
          indexDesc ds
            (idToDesc(i \<mapsto> (case idToDesc i of None \<Rightarrow> [] | Some l \<Rightarrow> l) @ [d])))"

fun combineMatches ::
  "jsstring \<Rightarrow> jsstring \<Rightarrow> inputFile list \<Rightarrow> outputFile list \<Rightarrow> error + outputFile list" where
  \<comment> \<open>\<open>for (const m of matches)\<close>; an exception of combineTranscripts leaves the loops\<close>
  "combineMatches sid scontent [] outputs = Inr outputs"
| "combineMatches sid scontent (m # matches) outputs =
     (case combineTranscripts scontent (fileText m) of
        Inl e \<Rightarrow> Inl e
      | Inr result \<Rightarrow>
          combineMatches sid scontent matches
            (outputs @ [\<lparr>name = sid @ str ''_Descriptive_Transcript.txt'', content = result\<rparr>]))"

fun collectOutputs ::
  "(jsstring \<rightharpoonup> inputFile list) \<Rightarrow> inputFile list \<Rightarrow> outputFile list \<Rightarrow> error + outputFile list" where
  \<comment> \<open>\<open>for (const s of spokenEntries)\<close>\<close>
  "collectOutputs idToDesc [] outputs = Inr outputs"
| "collectOutputs idToDesc (s # spoken) outputs =
     (case idOf s of
        None \<Rightarrow> collectOutputs idToDesc spoken outputs
      | Some sid \<Rightarrow>
          (let matches = (case idToDesc sid of None \<Rightarrow> [] | Some l \<Rightarrow> l) in
           if matches = [] then collectOutputs idToDesc spoken outputs
           else (case combineMatches sid (fileText s) matches outputs of
                   Inl e \<Rightarrow> Inl e
                 | Inr outputs' \<Rightarrow> collectOutputs idToDesc spoken outputs')))"

definition presentOutputs :: "(nat \<Rightarrow> date) \<Rightarrow> page \<Rightarrow> outputFile list \<Rightarrow> page" where
  "presentOutputs clock pg outputs =
     (if length outputs = 0 then
        pg\<lparr>statusText := str ''No matching pairs by YTP ID.'',
           downloadBtnDisabled := True,
           downloadHref := None\<rparr>
      else if length outputs = 1 then
        pg\<lparr>downloadHref := Some (TextBlob (content (outputs ! 0))),
           downloadName := name (outputs ! 0),
           downloadBtnText := str ''Download '' @ name (outputs ! 0),
           downloadBtnDisabled := False,
           statusText := str ''Ready: 1 file''\<rparr>
      else
        pg\<lparr>downloadHref := Some (ZipBlob (buildZip clock outputs)),
           downloadName := str ''Narrava_Combined_'' @ showNat (length outputs) @ str ''_files.zip'',
           downloadBtnText := str ''Download '' @ showNat (length outputs) @ str '' files (ZIP)'',
           downloadBtnDisabled := False,
           statusText := str ''Ready: '' @ showNat (length outputs) @ str '' files''\<rparr>)"

definition combineClick :: "(nat \<Rightarrow> date) \<Rightarrow> page \<Rightarrow> inputFile list \<Rightarrow> inputFile list \<Rightarrow> page" where
  \<comment> \<open>the \<open>catch\<close> branch only sets the status text\<close>
  "combineClick clock pg spokenFiles descFiles =
     (let pg = pg\<lparr>statusText := str ''Combining...''\<rparr> in
      case collectOutputs (indexDesc descFiles Map.empty) spokenFiles [] of
        Inl e \<Rightarrow> pg\<lparr>statusText := str ''Failed to combine.''\<rparr>
      | Inr outputs \<Rightarrow> presentOutputs clock pg outputs)"

section \<open>Properties of the Merge Engine\<close>

lemma scanBack_pass:
  "m \<le> n \<Longrightarrow>
   (\<And>j. m \<le> j \<Longrightarrow> j < n \<Longrightarrow> startMs c - startMs (xs ! j) \<le> w \<and>
        normalizeForCompare (etext (xs ! j)) \<noteq> normalizeForCompare (etext c)) \<Longrightarrow>
   scanBack xs c w n = scanBack xs c w m"
proof (induction n)
  case 0
  then show ?case by simp
next
  case (Suc n)
  show ?case
  proof (cases "m = Suc n")
    case True
    then show ?thesis by simp
  next
    case False
    with Suc.prems(1) have mn: "m \<le> n" by simp
    have here: "startMs c - startMs (xs ! n) \<le> w \<and>
        normalizeForCompare (etext (xs ! n)) \<noteq> normalizeForCompare (etext c)"
      using Suc.prems(2) [of n] mn by simp
    have "scanBack xs c w (Suc n) = scanBack xs c w n"
      using here by (simp add: Let_def)
    also have "\<dots> = scanBack xs c w m"
      using Suc.IH [OF mn] Suc.prems(2) by simp
    finally show ?thesis .
  qed
qed

lemma scanBack_hit:
  assumes "startMs c - startMs d \<le> w"
    and "normalizeForCompare (etext d) = normalizeForCompare (etext c)"
    and "\<forall>e\<in>set post. startMs c - startMs e \<le> w \<and>
           normalizeForCompare (etext e) \<noteq> normalizeForCompare (etext c)"
  shows "scanBack (pre @ d # post) c w (length (pre @ d # post)) =
           (if role d \<noteq> str ''Speaker'' \<and> role c = str ''Speaker''
            then pre @ c # post else pre @ d # post, True)"
proof -
  let ?xs = "pre @ d # post"
  have pass: "scanBack ?xs c w (length ?xs) = scanBack ?xs c w (Suc (length pre))"
  proof (rule scanBack_pass)
    show "Suc (length pre) \<le> length ?xs" by simp
  next
    fix j assume j: "Suc (length pre) \<le> j" "j < length ?xs"
    then have "?xs ! j = post ! (j - Suc (length pre))"
      by (simp add: nth_append nth_Cons')
    moreover have "post ! (j - Suc (length pre)) \<in> set post"
      using j by (intro nth_mem) simp
    ultimately show "startMs c - startMs (?xs ! j) \<le> w \<and>
        normalizeForCompare (etext (?xs ! j)) \<noteq> normalizeForCompare (etext c)"
      using assms(3) by simp
  qed
  have "scanBack ?xs c w (Suc (length pre)) =
           (if role d \<noteq> str ''Speaker'' \<and> role c = str ''Speaker''
            then ?xs[length pre := c] else ?xs, True)"
    using assms(1,2) by (simp add: Let_def)
  then show ?thesis using pass by simp
qed

lemma scanBack_nomatch:
  "(\<And>j. m \<le> j \<Longrightarrow> j < n \<Longrightarrow>
        normalizeForCompare (etext (xs ! j)) \<noteq> normalizeForCompare (etext c)) \<Longrightarrow>
   m \<le> n \<Longrightarrow>
   scanBack xs c w n = (xs, False) \<or> scanBack xs c w n = scanBack xs c w m"
proof (induction n)
  case 0
  then show ?case by simp
next
  case (Suc n)
  show ?case
  proof (cases "m = Suc n")
    case True
    then show ?thesis by simp
  next
    case False
    with Suc.prems(2) have mn: "m \<le> n" by simp
    have here: "normalizeForCompare (etext (xs ! n)) \<noteq> normalizeForCompare (etext c)"
      using Suc.prems(1) [of n] mn by simp
    have ih: "scanBack xs c w n = (xs, False) \<or> scanBack xs c w n = scanBack xs c w m"
      using Suc.IH [OF _ mn] Suc.prems(1) by simp
    show ?thesis
    proof (cases "startMs c - startMs (xs ! n) > w")
      case True
      then show ?thesis by (simp add: Let_def)
    next
      case False
      then have "scanBack xs c w (Suc n) = scanBack xs c w n"
        using here by (simp add: Let_def)
      then show ?thesis using ih by simp
    qed
  qed
qed

lemma scanBack_miss:
  assumes "startMs c - startMs d > w"
    and "\<forall>e\<in>set post. normalizeForCompare (etext e) \<noteq> normalizeForCompare (etext c)"
  shows "scanBack (pre @ d # post) c w (length (pre @ d # post)) = (pre @ d # post, False)"
proof -
  let ?xs = "pre @ d # post"
  have "scanBack ?xs c w (length ?xs) = (?xs, False) \<or>
        scanBack ?xs c w (length ?xs) = scanBack ?xs c w (Suc (length pre))"
  proof (rule scanBack_nomatch)
    show "Suc (length pre) \<le> length ?xs" by simp
  next
    fix j assume j: "Suc (length pre) \<le> j" "j < length ?xs"
    then have "?xs ! j = post ! (j - Suc (length pre))"
      by (simp add: nth_append nth_Cons')
    moreover have "post ! (j - Suc (length pre)) \<in> set post"
      using j by (intro nth_mem) simp
    ultimately show "normalizeForCompare (etext (?xs ! j)) \<noteq> normalizeForCompare (etext c)"
      using assms(2) by simp
  qed
  moreover have "scanBack ?xs c w (Suc (length pre)) = (?xs, False)"
    using assms(1) by (simp add: Let_def)
  ultimately show ?thesis by auto
qed

text \<open>
  C5: a Description entry and a Speaker entry at most 750 ms apart with equal comparison
  keys leave only the Speaker entry, in whichever order the two arrive; and when the
  Description entry already sits in the accumulator (the entries after it in window and
  with other keys), the Speaker entry is written into its position.
\<close>
theorem dedupe_prefers_speaker:
  assumes "role d = str ''Description''" and "role s = str ''Speaker''"
    and "normalizeForCompare (etext d) = normalizeForCompare (etext s)"
    and "\<bar>startMs s - startMs d\<bar> \<le> 750"
  shows "mergeOrderDedupe [d, s] = [s] \<and> mergeOrderDedupe [s, d] = [s] \<and>
         (\<forall>pre post items.
            (\<forall>e\<in>set post. startMs s - startMs e \<le> 750 \<and>
                 normalizeForCompare (etext e) \<noteq> normalizeForCompare (etext s)) \<longrightarrow>
            dedupeLoop (s # items) (pre @ d # post) 750 = dedupeLoop items (pre @ s # post) 750)"
proof -
  have ne: "role d \<noteq> str ''Speaker''"
    using assms(1) by (simp add: str_def)
  have sorted: "sortStable compareEntries [d, s] = (if startMs d \<le> startMs s then [d, s] else [s, d])"
    "sortStable compareEntries [s, d] = (if startMs d \<le> startMs s then [d, s] else [s, d])"
    using assms(1,2) by (auto simp: sortStable_def compareEntries_def momentOrderValue_def str_def)
  have ds: "dedupeNearDuplicates [d, s] 750 = [s]"
    using assms ne by (simp add: dedupeNearDuplicates_def Let_def)
  have sd: "dedupeNearDuplicates [s, d] 750 = [s]"
    using assms ne by (simp add: dedupeNearDuplicates_def Let_def)
  have pos: "dedupeLoop (s # items) (pre @ d # post) 750 = dedupeLoop items (pre @ s # post) 750"
    if "\<forall>e\<in>set post. startMs s - startMs e \<le> 750 \<and>
                 normalizeForCompare (etext e) \<noteq> normalizeForCompare (etext s)"
    for pre post items
  proof -
    have "scanBack (pre @ d # post) s 750 (length (pre @ d # post)) = (pre @ s # post, True)"
      using scanBack_hit [of s d 750 post pre] assms ne that by simp
    then show ?thesis by simp
  qed
  show ?thesis using sorted ds sd pos by (simp add: mergeOrderDedupe_def)
qed

text \<open>
  C6: for two entries with equal comparison keys, a gap of exactly 750 ms makes the later
  one a duplicate (dropped, or written over the earlier one on a role upgrade), alone and
  inside an accumulator with no other collision in the window; a gap of 751 ms keeps both.
\<close>
theorem dedupe_window_boundary:
  assumes "normalizeForCompare (etext a) = normalizeForCompare (etext b)"
  shows "(startMs b - startMs a = 750 \<longrightarrow>
            dedupeNearDuplicates [a, b] 750 =
              [if role a \<noteq> str ''Speaker'' \<and> role b = str ''Speaker'' then b else a] \<and>
            (\<forall>pre post items.
               (\<forall>e\<in>set post. startMs b - startMs e \<le> 750 \<and>
                    normalizeForCompare (etext e) \<noteq> normalizeForCompare (etext b)) \<longrightarrow>
               dedupeLoop (b # items) (pre @ a # post) 750 =
                 dedupeLoop items
                   (pre @ (if role a \<noteq> str ''Speaker'' \<and> role b = str ''Speaker'' then b else a) # post)
                   750)) \<and>
         (startMs b - startMs a = 751 \<longrightarrow>
            dedupeNearDuplicates [a, b] 750 = [a, b] \<and>
            (\<forall>pre post items.
               (\<forall>e\<in>set post. normalizeForCompare (etext e) \<noteq> normalizeForCompare (etext b)) \<longrightarrow>
               dedupeLoop (b # items) (pre @ a # post) 750 =
                 dedupeLoop items (pre @ a # post @ [b]) 750))"
proof (intro conjI impI allI)
  assume "startMs b - startMs a = 750"
  then show "dedupeNearDuplicates [a, b] 750 =
      [if role a \<noteq> str ''Speaker'' \<and> role b = str ''Speaker'' then b else a]"
    using assms by (simp add: dedupeNearDuplicates_def Let_def)
next
  fix pre post items :: "entry list"
  assume gap: "startMs b - startMs a = 750"
    and post: "\<forall>e\<in>set post. startMs b - startMs e \<le> 750 \<and>
                 normalizeForCompare (etext e) \<noteq> normalizeForCompare (etext b)"
  have "scanBack (pre @ a # post) b 750 (length (pre @ a # post)) =
          (if role a \<noteq> str ''Speaker'' \<and> role b = str ''Speaker''
           then pre @ b # post else pre @ a # post, True)"
    using scanBack_hit [of b a 750 post pre] assms gap post by simp
  then show "dedupeLoop (b # items) (pre @ a # post) 750 =
      dedupeLoop items
        (pre @ (if role a \<noteq> str ''Speaker'' \<and> role b = str ''Speaker'' then b else a) # post) 750"
    by simp
next
  assume "startMs b - startMs a = 751"
  then show "dedupeNearDuplicates [a, b] 750 = [a, b]"
    by (simp add: dedupeNearDuplicates_def Let_def)
next
  fix pre post items :: "entry list"
  assume gap: "startMs b - startMs a = 751"
    and post: "\<forall>e\<in>set post. normalizeForCompare (etext e) \<noteq> normalizeForCompare (etext b)"
  have "scanBack (pre @ a # post) b 750 (length (pre @ a # post)) = (pre @ a # post, False)"
    using scanBack_miss [of 750 b a post pre] gap post by simp
  then show "dedupeLoop (b # items) (pre @ a # post) 750 =
      dedupeLoop items (pre @ a # post @ [b]) 750"
    by simp
qed

theorem dedupe_prefers_speaker_witness:
  "mergeOrderDedupe
     [\<lparr>startMs = 1000, role = str ''Description'', etext = str ''Door slams.''\<rparr>,
      \<lparr>startMs = 1500, role = str ''Speaker'', etext = str ''door slams''\<rparr>] =
     [\<lparr>startMs = 1500, role = str ''Speaker'', etext = str ''door slams''\<rparr>] \<and>
   dedupeLoop
     [\<lparr>startMs = 1500, role = str ''Speaker'', etext = str ''door slams''\<rparr>]
     [\<lparr>startMs = 0, role = str ''Description'', etext = str ''Titles''\<rparr>,
      \<lparr>startMs = 1000, role = str ''Description'', etext = str ''Door slams.''\<rparr>,
      \<lparr>startMs = 1200, role = str ''On-screen text'', etext = str ''EXIT''\<rparr>] 750 =
     [\<lparr>startMs = 0, role = str ''Description'', etext = str ''Titles''\<rparr>,
      \<lparr>startMs = 1500, role = str ''Speaker'', etext = str ''door slams''\<rparr>,
      \<lparr>startMs = 1200, role = str ''On-screen text'', etext = str ''EXIT''\<rparr>]"
proof -
  let ?d = "\<lparr>startMs = 1000, role = str ''Description'', etext = str ''Door slams.''\<rparr>"
  let ?s = "\<lparr>startMs = 1500, role = str ''Speaker'', etext = str ''door slams''\<rparr>"
  let ?e0 = "\<lparr>startMs = 0, role = str ''Description'', etext = str ''Titles''\<rparr>"
  let ?e1 = "\<lparr>startMs = 1200, role = str ''On-screen text'', etext = str ''EXIT''\<rparr>"
  have k: "normalizeForCompare (etext ?d) = normalizeForCompare (etext ?s)"
    by code_simp
  have post: "\<forall>e\<in>set [?e1]. startMs ?s - startMs e \<le> 750 \<and>
                normalizeForCompare (etext e) \<noteq> normalizeForCompare (etext ?s)"
    by code_simp
  have t: "mergeOrderDedupe [?d, ?s] = [?s] \<and> mergeOrderDedupe [?s, ?d] = [?s] \<and>
         (\<forall>pre post items.
            (\<forall>e\<in>set post. startMs ?s - startMs e \<le> 750 \<and>
                 normalizeForCompare (etext e) \<noteq> normalizeForCompare (etext ?s)) \<longrightarrow>
            dedupeLoop (?s # items) (pre @ ?d # post) 750 = dedupeLoop items (pre @ ?s # post) 750)"
    using dedupe_prefers_speaker [of ?d ?s] k by simp
  then have "dedupeLoop (?s # []) ([?e0] @ ?d # [?e1]) 750 = dedupeLoop [] ([?e0] @ ?s # [?e1]) 750"
    using post by blast
  with t show ?thesis by simp
qed

theorem dedupe_window_boundary_witness:
  "dedupeNearDuplicates
     [\<lparr>startMs = 1000, role = str ''Description'', etext = str ''Door slams.''\<rparr>,
      \<lparr>startMs = 1750, role = str ''Speaker'', etext = str ''door slams''\<rparr>] 750 =
     [\<lparr>startMs = 1750, role = str ''Speaker'', etext = str ''door slams''\<rparr>] \<and>
   dedupeNearDuplicates
     [\<lparr>startMs = 1000, role = str ''Description'', etext = str ''Door slams.''\<rparr>,
      \<lparr>startMs = 1751, role = str ''Speaker'', etext = str ''door slams''\<rparr>] 750 =
     [\<lparr>startMs = 1000, role = str ''Description'', etext = str ''Door slams.''\<rparr>,
      \<lparr>startMs = 1751, role = str ''Speaker'', etext = str ''door slams''\<rparr>] \<and>
   dedupeLoop
     [\<lparr>startMs = 1750, role = str ''Speaker'', etext = str ''door slams''\<rparr>]
     [\<lparr>startMs = 1000, role = str ''Description'', etext = str ''Door slams.''\<rparr>,
      \<lparr>startMs = 1200, role = str ''On-screen text'', etext = str ''EXIT''\<rparr>] 750 =
     [\<lparr>startMs = 1750, role = str ''Speaker'', etext = str ''door slams''\<rparr>,
      \<lparr>startMs = 1200, role = str ''On-screen text'', etext = str ''EXIT''\<rparr>] \<and>
   dedupeLoop
     [\<lparr>startMs = 1751, role = str ''Speaker'', etext = str ''door slams''\<rparr>]
     [\<lparr>startMs = 1000, role = str ''Description'', etext = str ''Door slams.''\<rparr>,
      \<lparr>startMs = 1200, role = str ''On-screen text'', etext = str ''EXIT''\<rparr>] 750 =
     [\<lparr>startMs = 1000, role = str ''Description'', etext = str ''Door slams.''\<rparr>,
      \<lparr>startMs = 1200, role = str ''On-screen text'', etext = str ''EXIT''\<rparr>,
      \<lparr>startMs = 1751, role = str ''Speaker'', etext = str ''door slams''\<rparr>]"
proof -
  let ?a = "\<lparr>startMs = 1000, role = str ''Description'', etext = str ''Door slams.''\<rparr>"
  let ?b = "\<lparr>startMs = 1750, role = str ''Speaker'', etext = str ''door slams''\<rparr>"
  let ?c = "\<lparr>startMs = 1751, role = str ''Speaker'', etext = str ''door slams''\<rparr>"
  let ?e = "\<lparr>startMs = 1200, role = str ''On-screen text'', etext = str ''EXIT''\<rparr>"
  have k: "normalizeForCompare (etext ?a) = normalizeForCompare (etext ?b)"
      "normalizeForCompare (etext ?a) = normalizeForCompare (etext ?c)"
    by code_simp+
  have r: "role ?a \<noteq> str ''Speaker''" "role ?b = str ''Speaker''" by (simp_all add: str_def)
  have gaps: "startMs ?b - startMs ?a = 750" "startMs ?c - startMs ?a = 751" by simp_all
  have postb: "\<forall>e\<in>set [?e]. startMs ?b - startMs e \<le> 750 \<and>
                 normalizeForCompare (etext e) \<noteq> normalizeForCompare (etext ?b)"
    by code_simp
  have postc: "\<forall>e\<in>set [?e]. normalizeForCompare (etext e) \<noteq> normalizeForCompare (etext ?c)"
    by code_simp
  note tb = dedupe_window_boundary [OF k(1)]
  note tc = dedupe_window_boundary [OF k(2)]
  have 1: "dedupeNearDuplicates [?a, ?b] 750 = [?b]"
    using tb gaps(1) r by simp
  have 2: "dedupeNearDuplicates [?a, ?c] 750 = [?a, ?c]"
    using tc gaps(2) by simp
  have "dedupeLoop (?b # []) ([] @ ?a # [?e]) 750 =
          dedupeLoop [] ([] @ (if role ?a \<noteq> str ''Speaker'' \<and> role ?b = str ''Speaker''
                                then ?b else ?a) # [?e]) 750"
    using tb gaps(1) postb by blast
  then have 3: "dedupeLoop [?b] [?a, ?e] 750 = [?b, ?e]"
    using r by simp
  have "dedupeLoop (?c # []) ([] @ ?a # [?e]) 750 = dedupeLoop [] ([] @ ?a # [?e] @ [?c]) 750"
    using tc gaps(2) postc by blast
  then have 4: "dedupeLoop [?c] [?a, ?e] 750 = [?a, ?e, ?c]"
    by simp
  show ?thesis using 1 2 3 4 by simp
qed

text \<open>
  C2: the claim is that in the output of the sort followed by the dedup an entry with a
  smaller startMs always precedes one with a larger startMs.  Evaluated here: a Speaker
  cue at 200 ms that collides with a Description cue at 0 ms is written into the slot of
  the latter, before the Description cue at 100 ms, and the rendered transcript shows the
  two in that order.
\<close>

theorem merge_output_order_at_role_upgrade:
  "mergeOrderDedupe
     [\<lparr>startMs = 200, role = str ''Speaker'', etext = str ''x''\<rparr>,
      \<lparr>startMs = 0, role = str ''Description'', etext = str ''x''\<rparr>,
      \<lparr>startMs = 100, role = str ''Description'', etext = str ''y''\<rparr>] =
     [\<lparr>startMs = 200, role = str ''Speaker'', etext = str ''x''\<rparr>,
      \<lparr>startMs = 100, role = str ''Description'', etext = str ''y''\<rparr>] \<and>
   combineTranscripts
     (str ''00:00:00,200 --> 00:00:01,000\<newline>x\<newline>'')
     (str ''00:00:00,000 --> 00:00:01,000\<newline>x\<newline>\<newline>00:00:00,100 --> 00:00:01,000\<newline>y\<newline>'') =
     Inr (str ''Speaker: x\<newline>\<newline>Description: y'')"
  by code_simp

text \<open>
  C3: the claim is that the accumulator of dedupeNearDuplicates stays ordered by startMs,
  so that the early exit of the backward scan skips nothing inside the window.  Evaluated
  here on an input sorted by startMs: after the third entry the accumulator holds 700
  before 100; the scan for the fourth entry (900 ms) stops at the element of 100 ms and
  never reaches the element of 700 ms, which has the same key and is 200 ms away, so the
  fourth entry is kept.
\<close>

theorem dedupe_accumulator_order_at_role_upgrade:
  "dedupeNearDuplicates
     [\<lparr>startMs = 0, role = str ''Description'', etext = str ''x''\<rparr>,
      \<lparr>startMs = 100, role = str ''Description'', etext = str ''y''\<rparr>,
      \<lparr>startMs = 700, role = str ''Speaker'', etext = str ''x''\<rparr>] 750 =
     [\<lparr>startMs = 700, role = str ''Speaker'', etext = str ''x''\<rparr>,
      \<lparr>startMs = 100, role = str ''Description'', etext = str ''y''\<rparr>] \<and>
   scanBack
     [\<lparr>startMs = 700, role = str ''Speaker'', etext = str ''x''\<rparr>,
      \<lparr>startMs = 100, role = str ''Description'', etext = str ''y''\<rparr>]
     \<lparr>startMs = 900, role = str ''Description'', etext = str ''x''\<rparr> 750 2 =
     ([\<lparr>startMs = 700, role = str ''Speaker'', etext = str ''x''\<rparr>,
       \<lparr>startMs = 100, role = str ''Description'', etext = str ''y''\<rparr>], False) \<and>
   dedupeNearDuplicates
     [\<lparr>startMs = 0, role = str ''Description'', etext = str ''x''\<rparr>,
      \<lparr>startMs = 100, role = str ''Description'', etext = str ''y''\<rparr>,
      \<lparr>startMs = 700, role = str ''Speaker'', etext = str ''x''\<rparr>,
      \<lparr>startMs = 900, role = str ''Description'', etext = str ''x''\<rparr>] 750 =
     [\<lparr>startMs = 700, role = str ''Speaker'', etext = str ''x''\<rparr>,
      \<lparr>startMs = 100, role = str ''Description'', etext = str ''y''\<rparr>,
      \<lparr>startMs = 900, role = str ''Description'', etext = str ''x''\<rparr>] \<and>
   combineTranscripts
     (str ''00:00:00,700 --> 00:00:01,000\<newline>x\<newline>'')
     (str ''00:00:00,000 --> 00:00:01,000\<newline>x\<newline>\<newline>00:00:00,100 --> 00:00:01,000\<newline>y\<newline>\<newline>00:00:00,900 --> 00:00:01,000\<newline>x\<newline>'') =
     Inr (str ''Speaker: x\<newline>\<newline>Description: y\<newline>\<newline>Description: x'')"
  by code_simp

text \<open>
  C4: the spoken cue at 00:00:01,000 sorts before the descriptive cue at 00:00:01,500, so
  the transcript is the Speaker line, one blank line, then the On-screen text line.
\<close>

theorem end_to_end_scenario:
  "combineTranscripts
     (str ''1\<newline>00:00:01,000 --> 00:00:02,000\<newline>Hi there\<newline>'')
     (str ''1\<newline>00:00:01,500 --> 00:00:02,500\<newline>On-screen text: WELCOME\<newline>'') =
     Inr (str ''Speaker: Hi there\<newline>\<newline>On-screen text: WELCOME'')"
  by code_simp

theorem end_to_end_scenario_counterexample:
  "combineTranscripts
     (str ''1\<newline>00:00:01,000 --> 00:00:02,000\<newline>Hi there\<newline>'')
     (str ''1\<newline>00:00:01,500 --> 00:00:02,500\<newline>On-screen text: WELCOME\<newline>'') \<noteq>
     Inr (str ''On-screen text: WELCOME\<newline>\<newline>Speaker: Hi there'')"
  by code_simp



section \<open>Properties of the Track Parser\<close>

lemma lineAt_Some: "i < length lines \<Longrightarrow> lineAt lines i = Some (lines ! i)"
  by (simp add: lineAt_def)

lemma parseLoop_returns: "\<exists>bs. parseLoop lines i blocks = Inr bs"
proof (induction lines i blocks rule: parseLoop.induct)
  case (1 lines i blocks)
  show ?case
  proof (cases "i < length lines")
    case False
    then show ?thesis by (subst parseLoop.simps) simp
  next
    case True
    define i1 where "i1 = (if isIndexLine (trim (lines ! i)) then i + 1 else i)"
    define tc where "tc = timecodeExec (case lineAt lines i1 of None \<Rightarrow> [] | Some l1 \<Rightarrow> l1)"
    show ?thesis
    proof (cases tc)
      case None
      have "parseLoop lines i blocks = parseLoop lines (i1 + 1) blocks"
        using True None
        by (subst parseLoop.simps) (simp add: lineAt_Some i1_def tc_def Let_def)
      moreover have "\<exists>bs. parseLoop lines (i1 + 1) blocks = Inr bs"
        using "1.IH"(1) [OF True lineAt_Some [OF True] i1_def] None
        by (simp add: tc_def)
      ultimately show ?thesis by simp
    next
      case (Some caps)
      obtain h m s ms where caps: "caps = (h, m, s, ms)" by (cases caps) auto
      obtain textLines i2 where ct: "collectText lines (i1 + 1) [] = (textLines, i2)"
        by (cases "collectText lines (i1 + 1) []") auto
      define i3 where "i3 = skipBlank lines i2"
      define cleaned where "cleaned = cleanSrtText (join [0x0A] textLines)"
      define blocks' where "blocks' = (if trim cleaned \<noteq> []
              then blocks @ [\<lparr>bStartMs = hhmmssToMs h m s ms, bText = cleaned\<rparr>] else blocks)"
      have "parseLoop lines i blocks = parseLoop lines i3 blocks'"
        using True Some caps ct
        by (subst parseLoop.simps)
           (simp add: lineAt_Some i1_def [symmetric] tc_def [symmetric] Let_def i3_def cleaned_def blocks'_def
                )
      moreover have "\<exists>bs. parseLoop lines i3 blocks' = Inr bs"
      proof -
        have tcs: "timecodeExec (case lineAt lines i1 of None \<Rightarrow> [] | Some l1 \<Rightarrow> l1) = Some caps"
          using Some by (simp add: tc_def)
        have e1: "(h, (m, s, ms)) = caps" using caps by simp
        show ?thesis
          unfolding blocks'_def
          by (rule "1.IH"(2) [OF True lineAt_Some [OF True] i1_def tcs e1 refl refl
                ct [symmetric] i3_def cleaned_def])
      qed
      ultimately show ?thesis by simp
    qed
  qed
qed

lemma parseLoop_unparsable:
  "\<forall>l\<in>set lines. timecodeExec l = None \<Longrightarrow> parseLoop lines i blocks = Inr blocks"
proof (induction lines i blocks rule: parseLoop.induct)
  case (1 lines i blocks)
  show ?case
  proof (cases "i < length lines")
    case False
    then show ?thesis by (subst parseLoop.simps) simp
  next
    case True
    define i1 where "i1 = (if isIndexLine (trim (lines ! i)) then i + 1 else i)"
    have tc: "timecodeExec (case lineAt lines i1 of None \<Rightarrow> [] | Some l1 \<Rightarrow> l1) = None"
      using "1.prems" by (auto simp: lineAt_def)
    have "parseLoop lines i blocks = parseLoop lines (i1 + 1) blocks"
      using True tc
      by (subst parseLoop.simps) (simp add: lineAt_Some i1_def Let_def)
    also have "\<dots> = Inr blocks"
      using "1.IH"(1) [OF True lineAt_Some [OF True] i1_def tc] "1.prems" by simp
    finally show ?thesis .
  qed
qed

text \<open>
  C9: parseSrtToBlocks returns a block sequence for every input string, never the
  TypeError that reading a line out of range would raise; the empty input and an input
  none of whose lines holds a timecode give the empty sequence.
\<close>

theorem parseSrtToBlocks_total:
  "(\<exists>bs. parseSrtToBlocks s = Inr bs) \<and>
   parseSrtToBlocks [] = Inr [] \<and>
   ((\<forall>l\<in>set (splitOn 0x0A (replaceAll matchCr [0x0A] (replaceAll matchCrLf [0x0A] s))).
        timecodeExec l = None) \<longrightarrow>
    parseSrtToBlocks s = Inr [])"
proof (intro conjI impI)
  show "\<exists>bs. parseSrtToBlocks s = Inr bs"
    using parseLoop_returns by (simp add: parseSrtToBlocks_def Let_def)
next
  have "\<forall>l\<in>set (splitOn 0x0A (replaceAll matchCr [0x0A] (replaceAll matchCrLf [0x0A] []))).
          timecodeExec l = None"
    by simp
  then show "parseSrtToBlocks [] = Inr []"
    unfolding parseSrtToBlocks_def Let_def by (rule parseLoop_unparsable)
next
  assume "\<forall>l\<in>set (splitOn 0x0A (replaceAll matchCr [0x0A] (replaceAll matchCrLf [0x0A] s))).
            timecodeExec l = None"
  then show "parseSrtToBlocks s = Inr []"
    unfolding parseSrtToBlocks_def Let_def by (rule parseLoop_unparsable)
qed

theorem parseSrtToBlocks_total_witness:
  "parseSrtToBlocks (str ''7\<newline>not a timecode\<newline>00:00:01 --> 00:00:02\<newline>'') = Inr []"
proof -
  have "\<forall>l\<in>set (splitOn 0x0A (replaceAll matchCr [0x0A] (replaceAll matchCrLf [0x0A]
            (str ''7\<newline>not a timecode\<newline>00:00:01 --> 00:00:02\<newline>'')))).
          timecodeExec l = None"
    by code_simp
  then show ?thesis
    using parseSrtToBlocks_total [of "str ''7\<newline>not a timecode\<newline>00:00:01 --> 00:00:02\<newline>''"]
    by blast
qed



section \<open>Properties of the identifier extraction\<close>

lemma litIgnoreCase_iff:
  "litIgnoreCase p cs = Some r \<longleftrightarrow>
     length p \<le> length cs \<and> list_all2 eqIgnoreCase p (take (length p) cs) \<and> r = drop (length p) cs"
  by (induction p cs rule: litIgnoreCase.induct) auto

lemma eqIgnoreCase_upper:
  assumes "\<not> isAsciiLower p"
  shows "eqIgnoreCase p c \<longleftrightarrow> asciiUpperUnit c = p"
  using assms
  unfolding eqIgnoreCase_def asciiUpperUnit_def isAsciiLower_def isAsciiUpper_def
  by (auto simp: word_le_nat_alt unat_sub word_less_nat_alt)

lemma list_all2_eqIgnoreCase:
  "list_all (\<lambda>x. \<not> isAsciiLower x) p \<Longrightarrow>
   list_all2 eqIgnoreCase p q \<longleftrightarrow> map asciiUpperUnit q = p"
proof (induction p arbitrary: q)
  case Nil
  then show ?case by auto
next
  case (Cons a p)
  then show ?case by (cases q) (auto simp: eqIgnoreCase_upper)
qed

lemma matchYtpAt_drop:
  "matchYtpAt (drop k s) =
     (if ytpOccursAt s k
      then Some (take 3 (drop (k + 6) s),
                 case drop (k + 9) s of [] \<Rightarrow> None
                 | c # _ \<Rightarrow> if isAsciiLetter c then Some [c] else None)
      else None)"
proof -
  have up: "list_all (\<lambda>x. \<not> isAsciiLower x) (str ''YTP26-'')"
    by (simp add: str_def isAsciiLower_def)
  have len: "length (str ''YTP26-'') = 6" by (simp add: str_def)
  show ?thesis
  proof (cases "litIgnoreCase (str ''YTP26-'') (drop k s)")
    case None
    then have "\<not> (6 \<le> length (drop k s) \<and> map asciiUpperUnit (take 6 (drop k s)) = str ''YTP26-'')"
      using litIgnoreCase_iff [of "str ''YTP26-''" "drop k s" "drop 6 (drop k s)"]
        list_all2_eqIgnoreCase [OF up, of "take 6 (drop k s)"] len
      by auto
    then have "\<not> ytpOccursAt s k" by (auto simp: ytpOccursAt_def)
    with None show ?thesis by (simp add: matchYtpAt_def)
  next
    case (Some r1)
    then have r1: "6 \<le> length (drop k s)" "map asciiUpperUnit (take 6 (drop k s)) = str ''YTP26-''"
      "r1 = drop (k + 6) s"
      using litIgnoreCase_iff [of "str ''YTP26-''" "drop k s" r1]
        list_all2_eqIgnoreCase [OF up, of "take 6 (drop k s)"] len
      by (auto simp: add.commute)
    show ?thesis
    proof (cases "3 \<le> length r1 \<and> list_all isDigit (take 3 r1)")
      case True
      then have "ytpOccursAt s k" using r1 by (auto simp: ytpOccursAt_def)
      moreover have "drop 3 r1 = drop (k + 9) s" using r1(3) by (simp add: add.commute)
      ultimately show ?thesis using Some True r1(3)
        by (simp add: matchYtpAt_def takeDigits_def)
    next
      case False
      then have "\<not> ytpOccursAt s k" using r1 by (auto simp: ytpOccursAt_def)
      with Some False show ?thesis by (auto simp: matchYtpAt_def takeDigits_def)
    qed
  qed
qed

lemma ytpSearch_leftmost:
  "matchYtpAt (drop k s) = Some caps \<Longrightarrow> \<forall>j<k. matchYtpAt (drop j s) = None \<Longrightarrow>
   ytpSearch s = Some caps"
proof (induction s arbitrary: k)
  case Nil
  then show ?case by (simp add: matchYtpAt_def str_def)
next
  case (Cons c cs)
  show ?case
  proof (cases k)
    case 0
    with Cons.prems show ?thesis by simp
  next
    case (Suc k')
    have h0: "matchYtpAt (c # cs) = None" using Cons.prems(2) Suc by (auto dest: spec [of _ 0])
    have "\<forall>j<k'. matchYtpAt (drop j cs) = None"
      using Cons.prems(2) Suc by (auto dest: spec [of _ "Suc j" for j])
    then have "ytpSearch cs = Some caps"
      using Cons.IH [of k'] Cons.prems(1) Suc by simp
    with h0 show ?thesis by simp
  qed
qed

lemma ytpSearch_none:
  "\<forall>j. matchYtpAt (drop j s) = None \<Longrightarrow> ytpSearch s = None"
proof (induction s)
  case Nil
  then show ?case by simp
next
  case (Cons c cs)
  have h0: "matchYtpAt (c # cs) = None" using Cons.prems by (auto dest: spec [of _ 0])
  have "\<forall>j. matchYtpAt (drop j cs) = None"
    using Cons.prems by (auto dest: spec [of _ "Suc j" for j])
  with Cons.IH h0 show ?case by simp
qed

lemma extractYtpId_leftmost:
  assumes "ytpOccursAt s k" and "\<forall>j<k. \<not> ytpOccursAt s j"
  shows "extractYtpId s = Some (ytpIdAt s k)"
proof -
  have ne: "s \<noteq> []" using assms(1) by (auto simp: ytpOccursAt_def)
  have "ytpSearch s = Some (take 3 (drop (k + 6) s),
                 case drop (k + 9) s of [] \<Rightarrow> None
                 | c # _ \<Rightarrow> if isAsciiLetter c then Some [c] else None)"
    using assms by (intro ytpSearch_leftmost [of k]) (simp_all add: matchYtpAt_drop)
  then show ?thesis
    using ne
    by (auto simp: extractYtpId_def ytpIdAt_def toLowerCase_def lowerUnit_def asciiLowerUnit_def
          isAsciiLetter_def isAsciiLower_def isAsciiUpper_def split: list.splits)
qed

text \<open>
  C10: where the pattern occurs (leftmost at \<open>k\<close>), extractYtpId returns \<open>YTP26-\<close> in upper
  case, the three digits and the optional letter in lower case, whatever the case in the
  input; so a string that holds the pattern anywhere gets the identifier of one of its
  occurrences, and two names that differ in case only get the same one.  Where the
  pattern does not occur it returns null.
\<close>

theorem extractYtpId_canonical:
  "(ytpOccursAt s k \<and> (\<forall>j<k. \<not> ytpOccursAt s j) \<longrightarrow> extractYtpId s = Some (ytpIdAt s k)) \<and>
   ((\<exists>j. ytpOccursAt s j) \<longrightarrow> (\<exists>j. ytpOccursAt s j \<and> extractYtpId s = Some (ytpIdAt s j))) \<and>
   ((\<forall>j. \<not> ytpOccursAt s j) \<longrightarrow> extractYtpId s = None) \<and>
   extractYtpId (str ''ytp26-042A'') = Some (str ''YTP26-042a'') \<and>
   extractYtpId (str ''Ytp26-042A spoken.srt'') = extractYtpId (str ''clip_yTP26-042a_described.SRT'')"
proof (intro conjI impI)
  assume "ytpOccursAt s k \<and> (\<forall>j<k. \<not> ytpOccursAt s j)"
  then show "extractYtpId s = Some (ytpIdAt s k)"
    using extractYtpId_leftmost by blast
next
  assume "\<exists>j. ytpOccursAt s j"
  then obtain j where j: "ytpOccursAt s j" ..
  define m where "m = (LEAST i. ytpOccursAt s i)"
  have "ytpOccursAt s m" unfolding m_def using j by (rule LeastI)
  moreover have "\<forall>i<m. \<not> ytpOccursAt s i"
    unfolding m_def using not_less_Least by blast
  ultimately show "\<exists>j. ytpOccursAt s j \<and> extractYtpId s = Some (ytpIdAt s j)"
    using extractYtpId_leftmost by blast
next
  assume "\<forall>j. \<not> ytpOccursAt s j"
  then have "ytpSearch s = None"
    by (intro ytpSearch_none) (simp add: matchYtpAt_drop)
  then show "extractYtpId s = None" by (simp add: extractYtpId_def)
next
  show "extractYtpId (str ''ytp26-042A'') = Some (str ''YTP26-042a'')" by code_simp
next
  show "extractYtpId (str ''Ytp26-042A spoken.srt'') = extractYtpId (str ''clip_yTP26-042a_described.SRT'')"
    by code_simp
qed

theorem extractYtpId_canonical_witness:
  "extractYtpId (str ''clip_ytp26-042A-final.srt'') = Some (str ''YTP26-042a'') \<and>
   extractYtpId (str ''a.srt'') = None"
proof -
  have occ: "ytpOccursAt (str ''clip_ytp26-042A-final.srt'') 5 \<and>
        (\<forall>j<5. \<not> ytpOccursAt (str ''clip_ytp26-042A-final.srt'') j)"
    by code_simp
  have idv: "ytpIdAt (str ''clip_ytp26-042A-final.srt'') 5 = str ''YTP26-042a''"
    by code_simp
  have none: "\<forall>j. \<not> ytpOccursAt (str ''a.srt'') j"
    by (simp add: ytpOccursAt_def str_def)
  show ?thesis
    using extractYtpId_canonical [of "str ''clip_ytp26-042A-final.srt''" 5]
      extractYtpId_canonical [of "str ''a.srt''" 0] occ idv none
    by simp
qed



section \<open>Properties of the Archive Writer\<close>

lemma replicate_Cons_numeral: "replicate (numeral v) x = x # replicate (numeral v - 1) x"
  by (simp add: numeral_eq_Suc)

lemma list_update_Cons_numeral: "(x # xs)[numeral v := y] = x # xs[numeral v - 1 := y]"
  by (simp add: numeral_eq_Suc)

lemmas dataView_simps =
  putU16_def putU32_def setUint16_def setUint32_def le16_def le32_def
  replicate_Cons_numeral list_update_Cons_numeral

lemma localHeader_bytes:
  "localHeader t d crc sz n =
     le32 0x04034b50 @ le16 20 @ le16 0 @ le16 0 @ le16 t @ le16 d @ le32 (unat crc) @
     le32 sz @ le32 sz @ le16 n @ le16 0"
  by (simp add: localHeader_def dataView_simps)

lemma centralHeader_bytes:
  "centralHeader t d crc sz n off =
     le32 0x02014b50 @ le16 20 @ le16 20 @ le16 0 @ le16 0 @ le16 t @ le16 d @ le32 (unat crc) @
     le32 sz @ le32 sz @ le16 n @ le16 0 @ le16 0 @ le16 0 @ le16 0 @ le32 0 @ le32 off"
  by (simp add: centralHeader_def dataView_simps)

lemma endRecord_bytes:
  "endRecord n csize cstart =
     le32 0x06054b50 @ le16 0 @ le16 0 @ le16 n @ le16 n @ le32 csize @ le32 cstart @ le16 0"
  by (simp add: endRecord_def dataView_simps)

lemma getUint32_le32: "getUint32 (le32 v) 0 = v mod 2 ^ 32"
proof -
  have "v mod 2 ^ 32 = v mod 256 + 256 * (v div 256 mod 256) + 65536 * (v div 65536 mod 256)
      + 16777216 * (v div 16777216 mod 256)"
  proof -
    have a: "v mod 2 ^ 32 = v mod 256 + 256 * (v div 256 mod 16777216)"
      using mod_mult2_eq [of v 256 16777216] by simp
    have b: "v div 256 mod 16777216 = v div 256 mod 256 + 256 * (v div 256 div 256 mod 65536)"
      using mod_mult2_eq [of "v div 256" 256 65536] by simp
    have c: "v div 256 div 256 mod 65536 =
               v div 256 div 256 mod 256 + 256 * (v div 256 div 256 div 256 mod 256)"
      using mod_mult2_eq [of "v div 256 div 256" 256 256] by simp
    have d: "v div 256 div 256 = v div 65536" "v div 256 div 256 div 256 = v div 16777216"
      by (simp_all add: div_mult2_eq [symmetric])
    show ?thesis using a b c d by simp
  qed
  then show ?thesis
    by (simp add: getUint32_def le32_def unat_of_nat)
qed

lemma length_localHeader [simp]: "length (localHeader t d crc sz n) = 30"
  by (simp add: localHeader_bytes le16_def le32_def)

lemma length_centralHeader [simp]: "length (centralHeader t d crc sz n off) = 46"
  by (simp add: centralHeader_bytes le16_def le32_def)

lemma length_endRecord [simp]: "length (endRecord n csize cstart) = 22"
  by (simp add: endRecord_bytes le16_def le32_def)

lemma addFiles_chunks:
  "concat (chunks (addFiles clock n fs w)) = concat (chunks w) @ localPart clock n fs"
  by (induction fs arbitrary: n w) (simp_all add: addFile_def Let_def)

lemma addFiles_offset:
  "offset (addFiles clock n fs w) = offset w + sum_list (map localSize fs)"
  by (induction fs arbitrary: n w) (simp_all add: addFile_def Let_def localSize_def)

lemma addFiles_central:
  "centralDirectory (addFiles clock n fs w) = centralDirectory w @ centralPart clock n (offset w) fs"
  by (induction fs arbitrary: n w) (simp_all add: addFile_def Let_def localSize_def add.assoc)

lemma pushCentral_chunks:
  "concat (chunks (pushCentral es w)) = concat (chunks w) @ centralBytes es"
  by (induction es arbitrary: w) (simp_all add: centralBytes_def)

lemma pushCentral_offset:
  "offset (pushCentral es w) = offset w + length (centralBytes es)"
  by (induction es arbitrary: w) (simp_all add: centralBytes_def)

lemma pushCentral_central: "centralDirectory (pushCentral es w) = centralDirectory w"
  by (induction es arbitrary: w) simp_all

lemma length_centralPart [simp]: "length (centralPart clock n base fs) = length fs"
  by (induction fs arbitrary: n base) simp_all

lemma length_centralBytes:
  "length (centralBytes (centralPart clock n base fs)) = sum_list (map centralRecSize fs)"
  by (induction fs arbitrary: n base) (simp_all add: centralBytes_def centralRecSize_def)

lemma length_localPart: "length (localPart clock n fs) = sum_list (map localSize fs)"
  by (induction fs arbitrary: n) (simp_all add: localSize_def)

lemma buildZip_layout:
  "buildZip clock files =
     localPart clock 0 files @ centralBytes (centralPart clock 0 0 files) @
     endRecord (length files) (centralTotal files) (centralStartPos files)"
  by (simp add: buildZip_def toUint8Array_def Let_def newZipWriter_def addFiles_chunks
        addFiles_offset addFiles_central pushCentral_chunks pushCentral_offset pushCentral_central
        length_centralBytes centralTotal_def centralStartPos_def)

lemma drop_localPart:
  "i \<le> length fs \<Longrightarrow>
   drop (localPos fs i) (localPart clock n fs @ rest) = localPart clock (n + 2 * i) (drop i fs) @ rest"
proof (induction fs arbitrary: i n)
  case Nil
  then show ?case by (simp add: localPos_def)
next
  case (Cons f fs)
  show ?case
  proof (cases i)
    case 0
    then show ?thesis by (simp add: localPos_def)
  next
    case (Suc j)
    with Cons.prems have j: "j \<le> length fs" by simp
    have "localPos (f # fs) (Suc j) = localSize f + localPos fs j"
      by (simp add: localPos_def)
    then show ?thesis
      using Cons.IH [OF j, of "n + 2"] Suc
      by (simp add: localSize_def drop_append add.commute add.left_commute)
  qed
qed

lemma drop_centralBytes:
  "i \<le> length fs \<Longrightarrow>
   drop (sum_list (map centralRecSize (take i fs))) (centralBytes (centralPart clock n base fs) @ rest) =
     centralBytes (centralPart clock (n + 2 * i) (base + localPos fs i) (drop i fs)) @ rest"
proof (induction fs arbitrary: i n base)
  case Nil
  then show ?case by (simp add: localPos_def)
next
  case (Cons f fs)
  show ?case
  proof (cases i)
    case 0
    then show ?thesis by (simp add: localPos_def)
  next
    case (Suc j)
    with Cons.prems have j: "j \<le> length fs" by simp
    have "localPos (f # fs) (Suc j) = localSize f + localPos fs j"
      by (simp add: localPos_def)
    then show ?thesis
      using Cons.IH [OF j, of "n + 2" "base + localSize f"] Suc
      by (simp add: centralRecSize_def centralBytes_def drop_append add.commute add.left_commute)
  qed
qed

lemma getUint32_drop: "p + 3 < length buf \<Longrightarrow> getUint32 buf (p + k) = getUint32 (drop p buf) k"
  by (simp add: getUint32_def add.assoc)

lemma getUint32_le32_at:
  "length pre = k \<Longrightarrow> getUint32 (pre @ le32 v @ post) k = v mod 2 ^ 32"
proof -
  assume "length pre = k"
  then have "getUint32 (pre @ le32 v @ post) k = getUint32 (le32 v) 0"
    by (simp add: getUint32_def nth_append le32_def)
  then show ?thesis by (simp add: getUint32_le32)
qed

lemma zip_local_at:
  assumes "i < length files"
  shows "drop (localPos files i) (buildZip clock files) =
           localHeader (dosTime (clock (2 * i))) (dosDate (clock (2 * i + 1)))
             (crc32 (utf8Encode (content (files ! i))))
             (length (utf8Encode (content (files ! i)))) (length (utf8Encode (name (files ! i)))) @
           utf8Encode (name (files ! i)) @ utf8Encode (content (files ! i)) @
           drop (localPos files (Suc i)) (buildZip clock files)"
proof -
  let ?rest = "centralBytes (centralPart clock 0 0 files) @
     endRecord (length files) (centralTotal files) (centralStartPos files)"
  have d: "drop i files = files ! i # drop (Suc i) files"
    using assms by (simp add: Cons_nth_drop_Suc)
  have "drop (localPos files i) (buildZip clock files) =
          localPart clock (0 + 2 * i) (drop i files) @ ?rest"
    unfolding buildZip_layout using assms by (intro drop_localPart) simp
  moreover have "drop (localPos files (Suc i)) (buildZip clock files) =
          localPart clock (0 + 2 * Suc i) (drop (Suc i) files) @ ?rest"
    unfolding buildZip_layout using assms by (intro drop_localPart) simp
  ultimately show ?thesis by (simp add: d)
qed

lemma zip_central_at:
  assumes "i < length files"
  shows "drop (centralPos files i) (buildZip clock files) =
           centralHeader (dosTime (clock (2 * i))) (dosDate (clock (2 * i + 1)))
             (crc32 (utf8Encode (content (files ! i))))
             (length (utf8Encode (content (files ! i)))) (length (utf8Encode (name (files ! i))))
             (localPos files i) @
           utf8Encode (name (files ! i)) @
           drop (centralPos files (Suc i)) (buildZip clock files)"
proof -
  let ?rest = "endRecord (length files) (centralTotal files) (centralStartPos files)"
  have d: "drop i files = files ! i # drop (Suc i) files"
    using assms by (simp add: Cons_nth_drop_Suc)
  have split: "drop (centralPos files j) (buildZip clock files) =
      drop (sum_list (map centralRecSize (take j files)))
        (centralBytes (centralPart clock 0 0 files) @ ?rest)" for j
    by (simp add: buildZip_layout centralPos_def centralStartPos_def length_localPart
          drop_append add.commute)
  have "drop (centralPos files i) (buildZip clock files) =
      centralBytes (centralPart clock (0 + 2 * i) (0 + localPos files i) (drop i files)) @ ?rest"
    unfolding split using assms by (intro drop_centralBytes) simp
  moreover have "drop (centralPos files (Suc i)) (buildZip clock files) =
      centralBytes (centralPart clock (0 + 2 * Suc i) (0 + localPos files (Suc i)) (drop (Suc i) files))
        @ ?rest"
    unfolding split using assms by (intro drop_centralBytes) simp
  moreover have "localPos files (Suc i) = localPos files i + localSize (files ! i)"
    using assms by (simp add: localPos_def take_Suc_conv_app_nth)
  ultimately show ?thesis by (simp add: d centralBytes_def)
qed

lemma zip_end_at:
  "drop (endPos files) (buildZip clock files) =
     endRecord (length files) (centralTotal files) (centralStartPos files)"
  by (simp add: buildZip_layout endPos_def centralStartPos_def centralTotal_def
        length_localPart length_centralBytes)

lemma zip_offset_field:
  assumes "i < length files"
  shows "getUint32 (buildZip clock files) (centralPos files i + 42) = localPos files i mod 2 ^ 32"
proof -
  let ?buf = "buildZip clock files"
  have len: "centralPos files i + 46 \<le> length ?buf"
    using arg_cong [OF zip_central_at [OF assms, of clock], of length] by simp
  then have "getUint32 ?buf (centralPos files i + 42) = getUint32 (drop (centralPos files i) ?buf) 42"
    by (intro getUint32_drop) simp
  also have "\<dots> = localPos files i mod 2 ^ 32"
    unfolding zip_central_at [OF assms] centralHeader_bytes
    by (simp add: getUint32_def nth_append le16_def le32_def unat_of_nat)
       (simp add: getUint32_le32 [unfolded getUint32_def le32_def, simplified, symmetric] unat_of_nat)
  finally show ?thesis .
qed

lemma zip_end_fields:
  "getUint32 (buildZip clock files) (endPos files + 12) = centralTotal files mod 2 ^ 32 \<and>
   getUint32 (buildZip clock files) (endPos files + 16) = centralStartPos files mod 2 ^ 32 \<and>
   length (buildZip clock files) = endPos files + 22 \<and>
   bytesAt (buildZip clock files) (endPos files) 4 = le32 0x06054b50"
proof -
  let ?buf = "buildZip clock files"
  have len: "length ?buf = endPos files + 22"
    using arg_cong [OF zip_end_at [of files clock], of length] by simp
  have f12: "getUint32 ?buf (endPos files + 12) = getUint32 (drop (endPos files) ?buf) 12"
    using len by (intro getUint32_drop) simp
  have f16: "getUint32 ?buf (endPos files + 16) = getUint32 (drop (endPos files) ?buf) 16"
    using len by (intro getUint32_drop) simp
  have v12: "getUint32 (drop (endPos files) ?buf) 12 = centralTotal files mod 2 ^ 32"
    unfolding zip_end_at endRecord_bytes
    by (simp add: getUint32_def nth_append le16_def le32_def unat_of_nat)
       (simp add: getUint32_le32 [unfolded getUint32_def le32_def, simplified, symmetric] unat_of_nat)
  have v16: "getUint32 (drop (endPos files) ?buf) 16 = centralStartPos files mod 2 ^ 32"
    unfolding zip_end_at endRecord_bytes
    by (simp add: getUint32_def nth_append le16_def le32_def unat_of_nat)
       (simp add: getUint32_le32 [unfolded getUint32_def le32_def, simplified, symmetric] unat_of_nat)
  have sig: "bytesAt ?buf (endPos files) 4 = le32 0x06054b50"
    unfolding bytesAt_def zip_end_at endRecord_bytes by (simp add: le32_def)
  show ?thesis using len f12 f16 v12 v16 sig by simp
qed

lemma zip_file_fields:
  assumes "i < length files"
  shows "bytesAt (buildZip clock files) (localPos files i) 4 = le32 0x04034b50"
    and "bytesAt (buildZip clock files) (localPos files i + 30)
           (length (utf8Encode (name (files ! i)))) = utf8Encode (name (files ! i))"
    and "bytesAt (buildZip clock files) (localPos files i + 30 + length (utf8Encode (name (files ! i))))
           (length (utf8Encode (content (files ! i)))) = utf8Encode (content (files ! i))"
    and "bytesAt (buildZip clock files) (centralPos files i) 4 = le32 0x02014b50"
    and "bytesAt (buildZip clock files) (centralPos files i + 46)
           (length (utf8Encode (name (files ! i)))) = utf8Encode (name (files ! i))"
proof -
  let ?buf = "buildZip clock files"
  show "bytesAt ?buf (localPos files i) 4 = le32 0x04034b50"
    unfolding bytesAt_def zip_local_at [OF assms] localHeader_bytes by (simp add: le32_def)
  have "drop (localPos files i + 30) ?buf = drop 30 (drop (localPos files i) ?buf)"
    by (simp add: add.commute)
  then show "bytesAt ?buf (localPos files i + 30) (length (utf8Encode (name (files ! i)))) =
      utf8Encode (name (files ! i))"
    unfolding bytesAt_def zip_local_at [OF assms] by simp
  have "drop (localPos files i + 30 + length (utf8Encode (name (files ! i)))) ?buf =
      drop (30 + length (utf8Encode (name (files ! i)))) (drop (localPos files i) ?buf)"
    by (simp add: add.commute add.left_commute)
  then show "bytesAt ?buf (localPos files i + 30 + length (utf8Encode (name (files ! i))))
      (length (utf8Encode (content (files ! i)))) = utf8Encode (content (files ! i))"
    unfolding bytesAt_def zip_local_at [OF assms] by simp
  show "bytesAt ?buf (centralPos files i) 4 = le32 0x02014b50"
    unfolding bytesAt_def zip_central_at [OF assms] centralHeader_bytes by (simp add: le32_def)
  have "drop (centralPos files i + 46) ?buf = drop 46 (drop (centralPos files i) ?buf)"
    by (simp add: add.commute)
  then show "bytesAt ?buf (centralPos files i + 46) (length (utf8Encode (name (files ! i)))) =
      utf8Encode (name (files ! i))"
    unfolding bytesAt_def zip_central_at [OF assms] by simp
qed

text \<open>
  C1 (amended): in the buffer of buildZip the local header of file \<open>i\<close> (its signature,
  then after 30 bytes the file's name and data) begins at the sum of the sizes of the
  files before it, its central directory record begins after all files and the records
  before it, and the end record after those.  The offset field of the record, and the
  size and start fields of the end record, hold these values modulo \<open>2^32\<close>: they are
  equal to them whenever the values are below \<open>2^32\<close>.
\<close>

theorem zip_offsets_match_positions:
  "(i < length files \<longrightarrow>
      bytesAt (buildZip clock files) (localPos files i) 4 = le32 0x04034b50 \<and>
      bytesAt (buildZip clock files) (localPos files i + 30)
        (length (utf8Encode (name (files ! i)))) = utf8Encode (name (files ! i)) \<and>
      bytesAt (buildZip clock files) (localPos files i + 30 + length (utf8Encode (name (files ! i))))
        (length (utf8Encode (content (files ! i)))) = utf8Encode (content (files ! i)) \<and>
      bytesAt (buildZip clock files) (centralPos files i) 4 = le32 0x02014b50 \<and>
      bytesAt (buildZip clock files) (centralPos files i + 46)
        (length (utf8Encode (name (files ! i)))) = utf8Encode (name (files ! i)) \<and>
      getUint32 (buildZip clock files) (centralPos files i + 42) = localPos files i mod 2 ^ 32 \<and>
      (localPos files i < 2 ^ 32 \<longrightarrow>
         getUint32 (buildZip clock files) (centralPos files i + 42) = localPos files i)) \<and>
   bytesAt (buildZip clock files) (endPos files) 4 = le32 0x06054b50 \<and>
   length (buildZip clock files) = endPos files + 22 \<and>
   endPos files = centralPos files 0 + centralTotal files \<and>
   getUint32 (buildZip clock files) (endPos files + 16) = centralPos files 0 mod 2 ^ 32 \<and>
   getUint32 (buildZip clock files) (endPos files + 12) = centralTotal files mod 2 ^ 32 \<and>
   (centralPos files 0 < 2 ^ 32 \<longrightarrow>
      getUint32 (buildZip clock files) (endPos files + 16) = centralPos files 0) \<and>
   (centralTotal files < 2 ^ 32 \<longrightarrow>
      getUint32 (buildZip clock files) (endPos files + 12) = centralTotal files)"
proof -
  have c0: "centralPos files 0 = centralStartPos files"
    by (simp add: centralPos_def)
  have e: "endPos files = centralPos files 0 + centralTotal files"
    by (simp add: endPos_def c0)
  show ?thesis
    using zip_file_fields [of i files clock] zip_offset_field [of i files clock]
      zip_end_fields [of clock files] c0 e
    by simp
qed

lemma length_utf8Encode_ascii:
  "list_all (\<lambda>c. c < 0x80) s \<Longrightarrow> length (utf8Encode s) = length s"
proof (induction s rule: utf8Encode.induct)
  case 1
  then show ?case by simp
next
  case (2 c)
  then show ?case
    by (auto simp: utf8CodePoint_def isSurrogate_def word_less_nat_alt word_le_nat_alt)
next
  case (3 c d cs)
  then show ?case
    by (auto simp: utf8CodePoint_def isSurrogate_def word_less_nat_alt word_le_nat_alt)
qed

theorem zip_offsets_match_positions_counterexample:
  "getUint32
     (buildZip (\<lambda>n. \<lparr>getFullYear = 2024, getMonth = 0, getDate = 15, getHours = 10,
                      getMinutes = 30, getSeconds = 7\<rparr>)
        (replicate 17 \<lparr>name = str ''a'', content = replicate (2 ^ 28) 0x61\<rparr>))
     (centralPos (replicate 17 \<lparr>name = str ''a'', content = replicate (2 ^ 28) 0x61\<rparr>) 16 + 42)
   \<noteq> localPos (replicate 17 \<lparr>name = str ''a'', content = replicate (2 ^ 28) 0x61\<rparr>) 16"
proof -
  let ?f = "\<lparr>name = str ''a'', content = replicate (2 ^ 28) 0x61\<rparr>"
  have "length (utf8Encode (content ?f)) = 2 ^ 28"
    by (subst length_utf8Encode_ascii) (simp_all add: list_all_iff)
  moreover have "length (utf8Encode (name ?f)) = 1"
    by (simp add: str_def utf8CodePoint_def isSurrogate_def)
  ultimately have sz: "localSize ?f = 2 ^ 28 + 31"
    by (simp add: localSize_def)
  have pos: "localPos (replicate 17 ?f) 16 = 2 ^ 32 + 496"
    using sz by (simp add: localPos_def sum_list_replicate)
  have field: "getUint32
      (buildZip (\<lambda>n. \<lparr>getFullYear = 2024, getMonth = 0, getDate = 15, getHours = 10,
                      getMinutes = 30, getSeconds = 7\<rparr>) (replicate 17 ?f))
      (centralPos (replicate 17 ?f) 16 + 42) = localPos (replicate 17 ?f) 16 mod 2 ^ 32"
    by (rule zip_offset_field) simp
  show ?thesis using field pos by simp
qed

theorem zip_offsets_match_positions_witness:
  "getUint32
     (buildZip (\<lambda>n. \<lparr>getFullYear = 2024, getMonth = 0, getDate = 15, getHours = 10,
                      getMinutes = 30, getSeconds = 7\<rparr>)
        [\<lparr>name = str ''a.txt'', content = str ''hi''\<rparr>,
         \<lparr>name = str ''b.txt'', content = str ''yo!''\<rparr>])
     (centralPos [\<lparr>name = str ''a.txt'', content = str ''hi''\<rparr>,
                  \<lparr>name = str ''b.txt'', content = str ''yo!''\<rparr>] 1 + 42) = 37 \<and>
   getUint32
     (buildZip (\<lambda>n. \<lparr>getFullYear = 2024, getMonth = 0, getDate = 15, getHours = 10,
                      getMinutes = 30, getSeconds = 7\<rparr>)
        [\<lparr>name = str ''a.txt'', content = str ''hi''\<rparr>,
         \<lparr>name = str ''b.txt'', content = str ''yo!''\<rparr>])
     (endPos [\<lparr>name = str ''a.txt'', content = str ''hi''\<rparr>,
              \<lparr>name = str ''b.txt'', content = str ''yo!''\<rparr>] + 16) = 75 \<and>
   getUint32
     (buildZip (\<lambda>n. \<lparr>getFullYear = 2024, getMonth = 0, getDate = 15, getHours = 10,
                      getMinutes = 30, getSeconds = 7\<rparr>)
        [\<lparr>name = str ''a.txt'', content = str ''hi''\<rparr>,
         \<lparr>name = str ''b.txt'', content = str ''yo!''\<rparr>])
     (endPos [\<lparr>name = str ''a.txt'', content = str ''hi''\<rparr>,
              \<lparr>name = str ''b.txt'', content = str ''yo!''\<rparr>] + 12) = 102"
proof -
  let ?fs = "[\<lparr>name = str ''a.txt'', content = str ''hi''\<rparr>,
              \<lparr>name = str ''b.txt'', content = str ''yo!''\<rparr>]"
  have pos: "localPos ?fs 1 = 37" "centralPos ?fs 0 = 75" "centralTotal ?fs = 102"
    by (simp_all add: localPos_def centralPos_def centralStartPos_def centralTotal_def
          centralRecSize_def localSize_def str_def utf8CodePoint_def isSurrogate_def)
  have i: "1 < length ?fs" by simp
  have small: "localPos ?fs 1 < 2 ^ 32" "centralPos ?fs 0 < 2 ^ 32" "centralTotal ?fs < 2 ^ 32"
    by (simp_all only: pos) simp_all
  let ?c = "\<lambda>n. \<lparr>getFullYear = 2024, getMonth = 0, getDate = 15, getHours = 10,
                      getMinutes = 30, getSeconds = 7\<rparr>"
  note t = zip_offsets_match_positions [of 1 ?fs ?c]
  have "getUint32 (buildZip ?c ?fs) (centralPos ?fs 1 + 42) = localPos ?fs 1"
    using t i small(1) by blast
  moreover have "getUint32 (buildZip ?c ?fs) (endPos ?fs + 16) = centralPos ?fs 0"
    using t small(2) by blast
  moreover have "getUint32 (buildZip ?c ?fs) (endPos ?fs + 12) = centralTotal ?fs"
    using t small(3) by blast
  ultimately show ?thesis by (simp only: pos)
qed



section \<open>Properties of the Orchestrator\<close>

lemma presentOutputs_many:
  "1 < length outputs \<Longrightarrow>
   presentOutputs clock pg outputs =
     pg\<lparr>downloadHref := Some (ZipBlob (buildZip clock outputs)),
        downloadName := str ''Narrava_Combined_'' @ showNat (length outputs) @ str ''_files.zip'',
        downloadBtnText := str ''Download '' @ showNat (length outputs) @ str '' files (ZIP)'',
        downloadBtnDisabled := False,
        statusText := str ''Ready: '' @ showNat (length outputs) @ str '' files''\<rparr>"
  by (auto simp: presentOutputs_def)

lemma collectOutputs_example:
  "collectOutputs
     (indexDesc
        [\<lparr>fileName = str ''YTP26-001_desc.srt'',
          fileText = str ''00:00:01,000 --> 00:00:02,000\<newline>A door\<newline>''\<rparr>,
         \<lparr>fileName = str ''ytp26-002B described.srt'',
          fileText = str ''00:00:01,000 --> 00:00:02,000\<newline>Rain\<newline>''\<rparr>] Map.empty)
     [\<lparr>fileName = str ''ytp26-001.srt'',
       fileText = str ''00:00:03,000 --> 00:00:04,000\<newline>Hi\<newline>''\<rparr>,
      \<lparr>fileName = str ''YTP26-002b.srt'',
       fileText = str ''00:00:03,000 --> 00:00:04,000\<newline>Bye\<newline>''\<rparr>] [] =
   Inr [\<lparr>name = str ''YTP26-001_Descriptive_Transcript.txt'',
         content = str ''Description: A door\<newline>\<newline>Speaker: Hi''\<rparr>,
        \<lparr>name = str ''YTP26-002b_Descriptive_Transcript.txt'',
         content = str ''Description: Rain\<newline>\<newline>Speaker: Bye''\<rparr>]"
  by code_simp

text \<open>
  C8 (amended): when the batch gives more than one OutputFile, the handler passes all of
  them to buildZip and offers the archive under the name
  \<open>Narrava_Combined_<count>_files.zip\<close>.
\<close>

theorem combine_many_offers_zip:
  "collectOutputs (indexDesc descFiles Map.empty) spokenFiles [] = Inr outputs \<and>
   1 < length outputs \<longrightarrow>
   combineClick clock pg spokenFiles descFiles =
     pg\<lparr>downloadHref := Some (ZipBlob (buildZip clock outputs)),
        downloadName := str ''Narrava_Combined_'' @ showNat (length outputs) @ str ''_files.zip'',
        downloadBtnText := str ''Download '' @ showNat (length outputs) @ str '' files (ZIP)'',
        downloadBtnDisabled := False,
        statusText := str ''Ready: '' @ showNat (length outputs) @ str '' files''\<rparr>"
  by (simp add: combineClick_def presentOutputs_many)

theorem combine_many_offers_zip_witness:
  "downloadName
    (combineClick
     (\<lambda>n. \<lparr>getFullYear = 2024, getMonth = 0, getDate = 15, getHours = 10,
                      getMinutes = 30, getSeconds = 7\<rparr>)
     \<lparr>statusText = [], downloadHref = None, downloadName = str ''combined_transcript.txt'',
        downloadBtnText = str ''Download'', downloadBtnDisabled = True\<rparr>
     [\<lparr>fileName = str ''ytp26-001.srt'',
       fileText = str ''00:00:03,000 --> 00:00:04,000\<newline>Hi\<newline>''\<rparr>,
      \<lparr>fileName = str ''YTP26-002b.srt'',
       fileText = str ''00:00:03,000 --> 00:00:04,000\<newline>Bye\<newline>''\<rparr>]
     [\<lparr>fileName = str ''YTP26-001_desc.srt'',
          fileText = str ''00:00:01,000 --> 00:00:02,000\<newline>A door\<newline>''\<rparr>,
         \<lparr>fileName = str ''ytp26-002B described.srt'',
          fileText = str ''00:00:01,000 --> 00:00:02,000\<newline>Rain\<newline>''\<rparr>]) =
   str ''Narrava_Combined_2_files.zip''"
proof -
  let ?outs = "[\<lparr>name = str ''YTP26-001_Descriptive_Transcript.txt'',
         content = str ''Description: A door\<newline>\<newline>Speaker: Hi''\<rparr>,
        \<lparr>name = str ''YTP26-002b_Descriptive_Transcript.txt'',
         content = str ''Description: Rain\<newline>\<newline>Speaker: Bye''\<rparr>]"
  let ?pg = "\<lparr>statusText = [], downloadHref = None, downloadName = str ''combined_transcript.txt'',
        downloadBtnText = str ''Download'', downloadBtnDisabled = True\<rparr>"
  let ?clock = "(\<lambda>n. \<lparr>getFullYear = 2024, getMonth = 0, getDate = 15, getHours = 10,
                      getMinutes = 30, getSeconds = 7\<rparr>)"
  have two: "showNat (length ?outs) = str ''2''"
    by (simp add: showNat.simps str_def)
  have len: "1 < length ?outs" by simp
  have "combineClick
     (\<lambda>n. \<lparr>getFullYear = 2024, getMonth = 0, getDate = 15, getHours = 10,
                      getMinutes = 30, getSeconds = 7\<rparr>)
     \<lparr>statusText = [], downloadHref = None, downloadName = str ''combined_transcript.txt'',
        downloadBtnText = str ''Download'', downloadBtnDisabled = True\<rparr>
     [\<lparr>fileName = str ''ytp26-001.srt'',
       fileText = str ''00:00:03,000 --> 00:00:04,000\<newline>Hi\<newline>''\<rparr>,
      \<lparr>fileName = str ''YTP26-002b.srt'',
       fileText = str ''00:00:03,000 --> 00:00:04,000\<newline>Bye\<newline>''\<rparr>]
     [\<lparr>fileName = str ''YTP26-001_desc.srt'',
          fileText = str ''00:00:01,000 --> 00:00:02,000\<newline>A door\<newline>''\<rparr>,
         \<lparr>fileName = str ''ytp26-002B described.srt'',
          fileText = str ''00:00:01,000 --> 00:00:02,000\<newline>Rain\<newline>''\<rparr>] =
     ?pg\<lparr>downloadHref := Some (ZipBlob (buildZip ?clock ?outs)),
        downloadName := str ''Narrava_Combined_'' @ showNat (length ?outs) @ str ''_files.zip'',
        downloadBtnText := str ''Download '' @ showNat (length ?outs) @ str '' files (ZIP)'',
        downloadBtnDisabled := False,
        statusText := str ''Ready: '' @ showNat (length ?outs) @ str '' files''\<rparr>"
    using combine_many_offers_zip [of "[\<lparr>fileName = str ''YTP26-001_desc.srt'',
          fileText = str ''00:00:01,000 --> 00:00:02,000\<newline>A door\<newline>''\<rparr>,
         \<lparr>fileName = str ''ytp26-002B described.srt'',
          fileText = str ''00:00:01,000 --> 00:00:02,000\<newline>Rain\<newline>''\<rparr>]" "[\<lparr>fileName = str ''ytp26-001.srt'',
       fileText = str ''00:00:03,000 --> 00:00:04,000\<newline>Hi\<newline>''\<rparr>,
      \<lparr>fileName = str ''YTP26-002b.srt'',
       fileText = str ''00:00:03,000 --> 00:00:04,000\<newline>Bye\<newline>''\<rparr>]" ?outs ?clock ?pg] collectOutputs_example len
    by blast
  then show ?thesis
    by (simp only: two) (simp add: str_def)
qed

theorem combine_many_offers_zip_counterexample:
  "downloadName
    (combineClick
     (\<lambda>n. \<lparr>getFullYear = 2024, getMonth = 0, getDate = 15, getHours = 10,
                      getMinutes = 30, getSeconds = 7\<rparr>)
     \<lparr>statusText = [], downloadHref = None, downloadName = str ''combined_transcript.txt'',
        downloadBtnText = str ''Download'', downloadBtnDisabled = True\<rparr>
     [\<lparr>fileName = str ''ytp26-001.srt'',
       fileText = str ''00:00:03,000 --> 00:00:04,000\<newline>Hi\<newline>''\<rparr>,
      \<lparr>fileName = str ''YTP26-002b.srt'',
       fileText = str ''00:00:03,000 --> 00:00:04,000\<newline>Bye\<newline>''\<rparr>]
     [\<lparr>fileName = str ''YTP26-001_desc.srt'',
          fileText = str ''00:00:01,000 --> 00:00:02,000\<newline>A door\<newline>''\<rparr>,
         \<lparr>fileName = str ''ytp26-002B described.srt'',
          fileText = str ''00:00:01,000 --> 00:00:02,000\<newline>Rain\<newline>''\<rparr>]) \<noteq>
   str ''Combined_2_files.zip''"
proof -
  let ?outs = "[\<lparr>name = str ''YTP26-001_Descriptive_Transcript.txt'',
         content = str ''Description: A door\<newline>\<newline>Speaker: Hi''\<rparr>,
        \<lparr>name = str ''YTP26-002b_Descriptive_Transcript.txt'',
         content = str ''Description: Rain\<newline>\<newline>Speaker: Bye''\<rparr>]"
  have len: "1 < length ?outs" by simp
  have "combineClick
     (\<lambda>n. \<lparr>getFullYear = 2024, getMonth = 0, getDate = 15, getHours = 10,
                      getMinutes = 30, getSeconds = 7\<rparr>)
     \<lparr>statusText = [], downloadHref = None, downloadName = str ''combined_transcript.txt'',
        downloadBtnText = str ''Download'', downloadBtnDisabled = True\<rparr>
     [\<lparr>fileName = str ''ytp26-001.srt'',
       fileText = str ''00:00:03,000 --> 00:00:04,000\<newline>Hi\<newline>''\<rparr>,
      \<lparr>fileName = str ''YTP26-002b.srt'',
       fileText = str ''00:00:03,000 --> 00:00:04,000\<newline>Bye\<newline>''\<rparr>]
     [\<lparr>fileName = str ''YTP26-001_desc.srt'',
          fileText = str ''00:00:01,000 --> 00:00:02,000\<newline>A door\<newline>''\<rparr>,
         \<lparr>fileName = str ''ytp26-002B described.srt'',
          fileText = str ''00:00:01,000 --> 00:00:02,000\<newline>Rain\<newline>''\<rparr>] =
     presentOutputs (\<lambda>n. \<lparr>getFullYear = 2024, getMonth = 0, getDate = 15, getHours = 10,
                      getMinutes = 30, getSeconds = 7\<rparr>)
       (\<lparr>statusText = [], downloadHref = None, downloadName = str ''combined_transcript.txt'',
        downloadBtnText = str ''Download'', downloadBtnDisabled = True\<rparr>\<lparr>statusText := str ''Combining...''\<rparr>) ?outs"
    unfolding combineClick_def Let_def collectOutputs_example by simp
  then show ?thesis
    by (simp only: presentOutputs_many [OF len]) (simp add: str_def)
qed



section \<open>Properties of the Text Normalizer\<close>

lemma replaceAll_set: "set (replaceAll m rep s) \<subseteq> set s \<union> set rep"
proof (induction m rep s rule: replaceAll.induct)
  case (1 m rep)
  then show ?case by simp
next
  case (2 m rep c cs)
  show ?case
  proof (cases "m (c # cs)")
    case None
    with 2 show ?thesis by auto
  next
    case (Some n)
    have "set (drop (n - 1) cs) \<subseteq> set cs" by (rule set_drop_subset)
    with 2 Some show ?thesis by auto
  qed
qed

lemma tagFree_drop: "tagFree s \<Longrightarrow> tagFree (drop k s)"
  by (induction s arbitrary: k) (auto simp: drop_Cons split: nat.splits)

lemma braceFree_drop: "braceFree s \<Longrightarrow> braceFree (drop k s)"
  by (induction s arbitrary: k) (auto simp: drop_Cons split: nat.splits)

lemma wsClean_drop: "wsClean s \<Longrightarrow> wsClean (drop k s)"
  by (induction s arbitrary: k) (auto simp: drop_Cons split: nat.splits)

lemma tagFree_append_neutral: "0x3C \<notin> set rep \<Longrightarrow> tagFree s \<Longrightarrow> tagFree (rep @ s)"
  by (induction rep) auto

lemma braceFree_append_neutral: "0x7B \<notin> set rep \<Longrightarrow> braceFree s \<Longrightarrow> braceFree (rep @ s)"
  by (induction rep) auto

text \<open>Replacements that never start at a closing bracket keep a text tag-free.\<close>

lemma replaceAll_hd_keep:
  "m (c # cs) = None \<Longrightarrow> replaceAll m rep (c # cs) = c # replaceAll m rep cs"
  by simp

lemma tagFree_replaceAll:
  assumes "\<And>cs. m (0x3E # cs) = None" and "0x3C \<notin> set rep" and "0x3E \<notin> set rep"
    and "tagFree s"
  shows "tagFree (replaceAll m rep s)"
  using assms
proof (induction m rep s rule: replaceAll.induct)
  case (1 m rep)
  then show ?case by simp
next
  case (2 m rep c cs)
  note gt = "2.prems"(1) and rep = "2.prems"(2,3)
  from "2.prems"(4) have tcs: "tagFree cs"
    and hd: "c = 0x3C \<longrightarrow> cs = [] \<or> hd cs = 0x3E \<or> 0x3E \<notin> set cs"
    by simp_all
  show ?case
  proof (cases "m (c # cs)")
    case None
    let ?R = "replaceAll m rep cs"
    have tR: "tagFree ?R" using "2.IH"(1) [OF None gt rep tcs] .
    have "?R = [] \<or> hd ?R = 0x3E \<or> 0x3E \<notin> set ?R" if c: "c = 0x3C"
    proof -
      consider "cs = []" | d ds where "cs = d # ds" "d = 0x3E" | "0x3E \<notin> set cs"
        using hd c by (cases cs) auto
      then show ?thesis
      proof cases
        case 1
        then show ?thesis by simp
      next
        case 2
        then show ?thesis using gt [of ds] by simp
      next
        case 3
        then show ?thesis using replaceAll_set [of m rep cs] rep(2) by auto
      qed
    qed
    with tR None show ?thesis by simp
  next
    case (Some n)
    have "tagFree (replaceAll m rep (drop (n - 1) cs))"
      using "2.IH"(2) [OF Some gt rep tagFree_drop [OF tcs]] .
    then show ?thesis using Some rep(1) by (simp add: tagFree_append_neutral)
  qed
qed

lemma braceFree_replaceAll:
  assumes "0x7B \<notin> set rep" and "0x7D \<notin> set rep" and "braceFree s"
  shows "braceFree (replaceAll m rep s)"
  using assms
proof (induction m rep s rule: replaceAll.induct)
  case (1 m rep)
  then show ?case by simp
next
  case (2 m rep c cs)
  note rep = "2.prems"(1,2)
  from "2.prems"(3) have bcs: "braceFree cs" and hd: "c = 0x7B \<longrightarrow> 0x7D \<notin> set cs"
    by simp_all
  show ?case
  proof (cases "m (c # cs)")
    case None
    have "braceFree (replaceAll m rep cs)" using "2.IH"(1) [OF None rep bcs] .
    moreover have "c = 0x7B \<longrightarrow> 0x7D \<notin> set (replaceAll m rep cs)"
      using hd replaceAll_set [of m rep cs] rep(2) by auto
    ultimately show ?thesis using None by simp
  next
    case (Some n)
    have "braceFree (replaceAll m rep (drop (n - 1) cs))"
      using "2.IH"(2) [OF Some rep braceFree_drop [OF bcs]] .
    then show ?thesis using Some rep(1) by (simp add: braceFree_append_neutral)
  qed
qed

text \<open>Each replacement establishes its own invariant.\<close>

lemma length_takeWhile_less_iff:
  "length (takeWhile (\<lambda>x. x \<noteq> a) cs) < length cs \<longleftrightarrow> a \<in> set cs"
  by (induction cs) auto

lemma matchTag_None_iff:
  "matchTag (c # cs) = None \<longleftrightarrow> (c = 0x3C \<longrightarrow> cs = [] \<or> hd cs = 0x3E \<or> 0x3E \<notin> set cs)"
proof -
  have a: "takeWhile (\<lambda>x. x \<noteq> 0x3E) cs = [] \<longleftrightarrow> cs = [] \<or> hd cs = 0x3E"
    by (cases cs) auto
  show ?thesis
    using a length_takeWhile_less_iff [of "0x3E" cs] by (auto simp: matchTag_def Let_def)
qed

lemma matchBrace_None_iff:
  "matchBrace (c # cs) = None \<longleftrightarrow> (c = 0x7B \<longrightarrow> 0x7D \<notin> set cs)"
  using length_takeWhile_less_iff [of "0x7D" cs] by (auto simp: matchBrace_def Let_def)

lemma tagFree_removeTags: "tagFree (replaceAll matchTag [] s)"
proof (induction matchTag "[] :: jsstring" s rule: replaceAll.induct)
  case 1
  then show ?case by simp
next
  case (2 c cs)
  show ?case
  proof (cases "matchTag (c # cs)")
    case None
    let ?R = "replaceAll matchTag [] cs"
    have hd: "c = 0x3C \<longrightarrow> cs = [] \<or> hd cs = 0x3E \<or> 0x3E \<notin> set cs"
      using None by (simp add: matchTag_None_iff)
    have "?R = [] \<or> hd ?R = 0x3E \<or> 0x3E \<notin> set ?R" if c: "c = 0x3C"
    proof -
      consider "cs = []" | d ds where "cs = d # ds" "d = 0x3E" | "0x3E \<notin> set cs"
        using hd c by (cases cs) auto
      then show ?thesis
      proof cases
        case 1
        then show ?thesis by simp
      next
        case 2
        then show ?thesis by (simp add: matchTag_def)
      next
        case 3
        then show ?thesis using replaceAll_set [of matchTag "[]" cs] by auto
      qed
    qed
    with "2.hyps"(1) [OF None] None show ?thesis by simp
  next
    case (Some n)
    with "2.hyps"(2) [OF Some] show ?thesis by simp
  qed
qed

lemma braceFree_removeBraces: "braceFree (replaceAll matchBrace [] s)"
proof (induction matchBrace "[] :: jsstring" s rule: replaceAll.induct)
  case 1
  then show ?case by simp
next
  case (2 c cs)
  show ?case
  proof (cases "matchBrace (c # cs)")
    case None
    have "c = 0x7B \<longrightarrow> 0x7D \<notin> set (replaceAll matchBrace [] cs)"
      using None replaceAll_set [of matchBrace "[]" cs] by (auto simp: matchBrace_None_iff)
    with "2.hyps"(1) [OF None] None show ?thesis by simp
  next
    case (Some n)
    with "2.hyps"(2) [OF Some] show ?thesis by simp
  qed
qed

lemma zwFree_removeZeroWidth: "0x200B \<notin> set (replaceAll matchZeroWidth [] s)"
proof (induction matchZeroWidth "[] :: jsstring" s rule: replaceAll.induct)
  case 1
  then show ?case by simp
next
  case (2 c cs)
  then show ?case
    by (cases "matchZeroWidth (c # cs)") (auto simp: matchZeroWidth_def split: if_splits)
qed

lemma longestTrail_None_iff:
  "longestTrail cs k = None \<longleftrightarrow> (\<forall>n. 1 \<le> n \<and> n \<le> k \<longrightarrow> \<not> atLineEnd (drop n cs))"
proof (induction k)
  case 0
  then show ?case by simp
next
  case (Suc k)
  have "(\<forall>n. 1 \<le> n \<and> n \<le> Suc k \<longrightarrow> \<not> atLineEnd (drop n cs)) \<longleftrightarrow>
        \<not> atLineEnd (drop (Suc k) cs) \<and> (\<forall>n. 1 \<le> n \<and> n \<le> k \<longrightarrow> \<not> atLineEnd (drop n cs))"
    by (metis le_Suc_eq le_SucI Suc_le_eq zero_less_Suc One_nat_def)
  with Suc show ?case by simp
qed

lemma longestTrail_Some:
  "longestTrail cs k = Some n \<Longrightarrow> 1 \<le> n \<and> n \<le> k \<and> atLineEnd (drop n cs)"
  by (induction k) (auto split: if_splits)

lemma wsClean_nth:
  "wsClean s \<Longrightarrow> k < length s \<Longrightarrow> isSpace (s ! k) \<Longrightarrow> \<not> atLineEnd (drop (Suc k) s)"
  by (induction s arbitrary: k) (auto simp: nth_Cons split: nat.splits)

lemma takeWhile_nth_holds: "j < length (takeWhile P xs) \<Longrightarrow> P (xs ! j)"
  by (metis nth_mem set_takeWhileD takeWhile_nth)

lemma matchTrailingSpace_wsClean:
  assumes "wsClean s"
  shows "matchTrailingSpace s = None"
proof -
  have "\<not> atLineEnd (drop n s)" if n: "1 \<le> n" "n \<le> length (takeWhile isSpace s)" for n
  proof -
    have lt: "n - 1 < length (takeWhile isSpace s)" using n by simp
    then have "isSpace (s ! (n - 1))" by (rule takeWhile_nth_holds)
    moreover have "n - 1 < length s"
      using lt length_takeWhile_le [of isSpace s] by simp
    ultimately have "\<not> atLineEnd (drop (Suc (n - 1)) s)"
      using assms by (intro wsClean_nth)
    then show ?thesis using n by simp
  qed
  then show ?thesis by (simp add: matchTrailingSpace_def longestTrail_None_iff)
qed

lemma wsClean_stripTrailing: "wsClean (replaceAll matchTrailingSpace [] s)"
proof (induction matchTrailingSpace "[] :: jsstring" s rule: replaceAll.induct)
  case 1
  then show ?case by simp
next
  case (2 c cs)
  show ?case
  proof (cases "matchTrailingSpace (c # cs)")
    case (Some n)
    with "2.hyps"(2) [OF Some] show ?thesis by simp
  next
    case None
    let ?R = "replaceAll matchTrailingSpace [] cs"
    have "\<not> atLineEnd ?R" if sp: "isSpace c"
    proof -
      have all: "\<forall>n. 1 \<le> n \<and> n \<le> Suc (length (takeWhile isSpace cs)) \<longrightarrow>
                  \<not> atLineEnd (drop n (c # cs))"
      proof -
        have L: "length (takeWhile isSpace (c # cs)) = Suc (length (takeWhile isSpace cs))"
          using sp by simp
        have "longestTrail (c # cs) (Suc (length (takeWhile isSpace cs))) = None"
          using None unfolding matchTrailingSpace_def L .
        then show ?thesis by (simp only: longestTrail_None_iff)
      qed
      from all have "\<not> atLineEnd (drop 1 (c # cs))" by (metis le_refl Suc_le_mono le0 One_nat_def)
      then obtain d ds where cs: "cs = d # ds" and d: "\<not> isLineTerminator d"
        by (cases cs) (auto simp: atLineEnd_def)
      have "matchTrailingSpace cs = None"
      proof (rule ccontr)
        assume "matchTrailingSpace cs \<noteq> None"
        then obtain n' where "longestTrail cs (length (takeWhile isSpace cs)) = Some n'"
          by (auto simp: matchTrailingSpace_def)
        then have "1 \<le> n'" "n' \<le> length (takeWhile isSpace cs)" "atLineEnd (drop n' cs)"
          using longestTrail_Some by blast+
        then have "1 \<le> Suc n' \<and> Suc n' \<le> Suc (length (takeWhile isSpace cs)) \<and>
                   atLineEnd (drop (Suc n') (c # cs))"
          by simp
        with all show False by blast
      qed
      then show ?thesis using cs d by (simp add: atLineEnd_def)
    qed
    with "2.hyps"(1) [OF None] None show ?thesis by simp
  qed
qed

lemma not_atLineEnd_tabs:
  "\<not> atLineEnd cs \<Longrightarrow> \<not> atLineEnd (replaceAll matchTabRun [0x20] cs)"
  by (cases cs; cases "matchTabRun cs") (auto simp: atLineEnd_def isLineTerminator_def)

lemma matchTabRun_Some:
  "matchTabRun s = Some n \<Longrightarrow> 1 \<le> n \<and> n \<le> length s \<and> isSpace (s ! (n - 1))"
proof -
  assume a: "matchTabRun s = Some n"
  then have n: "n = length (takeWhile isTabFfVt s)" and npos: "0 < n"
    by (auto simp: matchTabRun_def Let_def split: if_splits)
  have le: "n \<le> length s"
    unfolding n by (rule length_takeWhile_le)
  have "n - 1 < length (takeWhile isTabFfVt s)" using n npos by simp
  then have "isTabFfVt (s ! (n - 1))"
    by (rule takeWhile_nth_holds)
  then have "isSpace (s ! (n - 1))" by (auto simp: isTabFfVt_def isSpace_def)
  with npos le show ?thesis by simp
qed

lemma wsClean_tabs: "wsClean s \<Longrightarrow> wsClean (replaceAll matchTabRun [0x20] s)"
proof (induction matchTabRun "[0x20] :: jsstring" s rule: replaceAll.induct)
  case 1
  then show ?case by simp
next
  case (2 c cs)
  from "2.prems" have wcs: "wsClean cs" and hd: "isSpace c \<longrightarrow> \<not> atLineEnd cs" by simp_all
  show ?case
  proof (cases "matchTabRun (c # cs)")
    case None
    have "wsClean (replaceAll matchTabRun [0x20] cs)" using "2.hyps"(1) [OF None wcs] .
    then show ?thesis using None hd not_atLineEnd_tabs by simp
  next
    case (Some n)
    let ?rest = "drop (n - 1) cs"
    have w: "wsClean (replaceAll matchTabRun [0x20] ?rest)"
      using "2.hyps"(2) [OF Some wsClean_drop [OF wcs]] .
    from matchTabRun_Some [OF Some]
    have n: "1 \<le> n" "n \<le> length (c # cs)" "isSpace ((c # cs) ! (n - 1))" by simp_all
    have "\<not> atLineEnd (drop (Suc (n - 1)) (c # cs))"
      using "2.prems" n by (intro wsClean_nth) simp_all
    then have "\<not> atLineEnd ?rest" by simp
    then have "\<not> atLineEnd (replaceAll matchTabRun [0x20] ?rest)" by (rule not_atLineEnd_tabs)
    with w Some show ?thesis by (simp add: isSpace_def)
  qed
qed

lemma tabFree_tabs: "\<forall>c\<in>set (replaceAll matchTabRun [0x20] s). \<not> isTabFfVt c"
proof (induction matchTabRun "[0x20] :: jsstring" s rule: replaceAll.induct)
  case 1
  then show ?case by simp
next
  case (2 c cs)
  show ?case
  proof (cases "matchTabRun (c # cs)")
    case None
    then have "\<not> isTabFfVt c" by (auto simp: matchTabRun_def Let_def split: if_splits)
    with "2.hyps"(1) [OF None] None show ?thesis by simp
  next
    case (Some n)
    with "2.hyps"(2) [OF Some] show ?thesis by (simp add: isTabFfVt_def)
  qed
qed

text \<open>On a text with the invariant the replacement changes nothing.\<close>

lemma removeTags_id: "tagFree s \<Longrightarrow> replaceAll matchTag [] s = s"
  by (induction s) (simp_all add: matchTag_None_iff [THEN iffD2])

lemma removeBraces_id: "braceFree s \<Longrightarrow> replaceAll matchBrace [] s = s"
  by (induction s) (simp_all add: matchBrace_None_iff [THEN iffD2])

lemma removeZeroWidth_id: "0x200B \<notin> set s \<Longrightarrow> replaceAll matchZeroWidth [] s = s"
  by (induction s) (simp_all add: matchZeroWidth_def)

lemma stripTrailing_id: "wsClean s \<Longrightarrow> replaceAll matchTrailingSpace [] s = s"
proof (induction s)
  case Nil
  then show ?case by simp
next
  case (Cons c cs)
  have "matchTrailingSpace (c # cs) = None"
    using Cons.prems by (rule matchTrailingSpace_wsClean)
  moreover have "replaceAll matchTrailingSpace [] cs = cs"
    using Cons by simp
  ultimately show ?case by simp
qed

lemma tabs_id: "\<forall>c\<in>set s. \<not> isTabFfVt c \<Longrightarrow> replaceAll matchTabRun [0x20] s = s"
  by (induction s) (simp_all add: matchTabRun_def)

lemma matchNewlines_wsClean:
  assumes "wsClean (c # cs)"
  shows "matchNewlines (c # cs) = None"
proof (cases "c = 0x0A \<and> cs \<noteq> [] \<and> hd cs = 0x0A")
  case True
  then obtain ds where "cs = 0x0A # ds" by (cases cs) auto
  with True assms show ?thesis
    by (simp add: isSpace_def atLineEnd_def isLineTerminator_def)
next
  case False
  then have "length (takeWhile (\<lambda>x. x = 0x0A) (c # cs)) < 2"
    by (cases cs) auto
  then show ?thesis by (simp add: matchNewlines_def Let_def)
qed

lemma newlines_id: "wsClean s \<Longrightarrow> replaceAll matchNewlines [0x0A] s = s"
proof (induction s)
  case Nil
  then show ?case by simp
next
  case (Cons c cs)
  have "matchNewlines (c # cs) = None"
    using Cons.prems by (rule matchNewlines_wsClean)
  moreover have "replaceAll matchNewlines [0x0A] cs = cs"
    using Cons by simp
  ultimately show ?case by simp
qed

lemma trimEnd_id: "wsClean s \<Longrightarrow> trimEnd s = s"
proof (cases "s = []")
  case True
  then show ?thesis by (simp add: trimEnd_def)
next
  case False
  assume w: "wsClean s"
  have "\<not> isSpace (s ! (length s - 1))"
  proof
    assume "isSpace (s ! (length s - 1))"
    then have "\<not> atLineEnd (drop (Suc (length s - 1)) s)"
      using w False by (intro wsClean_nth) simp_all
    then show False using False by (simp add: atLineEnd_def)
  qed
  then have "\<not> isSpace (hd (rev s))"
    using False by (simp add: hd_rev last_conv_nth)
  then have "dropWhile isSpace (rev s) = rev s"
    using False by (cases "rev s") auto
  then show ?thesis by (simp add: trimEnd_def)
qed

lemma trimStart_id: "s = [] \<or> \<not> isSpace (hd s) \<Longrightarrow> trimStart s = s"
  by (cases s) (auto simp: trimStart_def)

lemma tagFree_dropWhile: "tagFree s \<Longrightarrow> tagFree (dropWhile P s)"
  by (induction s) auto

lemma braceFree_dropWhile: "braceFree s \<Longrightarrow> braceFree (dropWhile P s)"
  by (induction s) auto

lemma wsClean_dropWhile: "wsClean s \<Longrightarrow> wsClean (dropWhile P s)"
  by (induction s) auto

lemma gt_no_match:
  "matchBrace (0x3E # cs) = None" "matchZeroWidth (0x3E # cs) = None"
  "matchTrailingSpace (0x3E # cs) = None" "matchTabRun (0x3E # cs) = None"
  by (simp_all add: matchBrace_def matchZeroWidth_def matchTrailingSpace_def matchTabRun_def
        isSpace_def isTabFfVt_def)

text \<open>
  C7: the Text Normalizer is idempotent: cleaning a cleaned text changes nothing, for
  every input string.
\<close>

theorem cleanSrtText_idempotent: "cleanSrtText (cleanSrtText x) = cleanSrtText x"
proof -
  define s1 where "s1 = replaceAll matchTag [] x"
  define s2 where "s2 = replaceAll matchBrace [] s1"
  define s3 where "s3 = replaceAll matchZeroWidth [] s2"
  define s4 where "s4 = replaceAll matchTrailingSpace [] s3"
  define s5 where "s5 = replaceAll matchTabRun [0x20] s4"
  define r where "r = trimStart s5"
  have t1: "tagFree s1" unfolding s1_def by (rule tagFree_removeTags)
  have t2: "tagFree s2" unfolding s2_def using t1 by (intro tagFree_replaceAll gt_no_match) simp_all
  have t3: "tagFree s3" unfolding s3_def using t2 by (intro tagFree_replaceAll gt_no_match) simp_all
  have t4: "tagFree s4" unfolding s4_def using t3 by (intro tagFree_replaceAll gt_no_match) simp_all
  have t5: "tagFree s5" unfolding s5_def using t4 by (intro tagFree_replaceAll gt_no_match) simp_all
  have b2: "braceFree s2" unfolding s2_def by (rule braceFree_removeBraces)
  have b3: "braceFree s3" unfolding s3_def using b2 by (intro braceFree_replaceAll) simp_all
  have b4: "braceFree s4" unfolding s4_def using b3 by (intro braceFree_replaceAll) simp_all
  have b5: "braceFree s5" unfolding s5_def using b4 by (intro braceFree_replaceAll) simp_all
  have z3: "0x200B \<notin> set s3" unfolding s3_def by (rule zwFree_removeZeroWidth)
  have z4: "0x200B \<notin> set s4"
    unfolding s4_def using z3 replaceAll_set [of matchTrailingSpace "[]" s3] by auto
  have z5: "0x200B \<notin> set s5"
    unfolding s5_def using z4 replaceAll_set [of matchTabRun "[0x20]" s4] by auto
  have w4: "wsClean s4" unfolding s4_def by (rule wsClean_stripTrailing)
  have w5: "wsClean s5" unfolding s5_def using w4 by (rule wsClean_tabs)
  have f5: "\<forall>c\<in>set s5. \<not> isTabFfVt c" unfolding s5_def by (rule tabFree_tabs)
  have clean: "cleanSrtText x = r"
    using newlines_id [OF w5] trimEnd_id [OF wsClean_dropWhile [OF w5, of isSpace]]
    by (simp add: cleanSrtText_def Let_def trim_def r_def trimStart_def
          s1_def s2_def s3_def s4_def s5_def)
  have rt: "tagFree r" unfolding r_def trimStart_def using t5 by (rule tagFree_dropWhile)
  have rb: "braceFree r" unfolding r_def trimStart_def using b5 by (rule braceFree_dropWhile)
  have rz: "0x200B \<notin> set r"
    unfolding r_def trimStart_def using z5 set_dropWhileD by fastforce
  have rw: "wsClean r" unfolding r_def trimStart_def using w5 by (rule wsClean_dropWhile)
  have rf: "\<forall>c\<in>set r. \<not> isTabFfVt c"
    unfolding r_def trimStart_def using f5 set_dropWhileD by fastforce
  have rs: "r = [] \<or> \<not> isSpace (hd r)"
    unfolding r_def trimStart_def using hd_dropWhile [of isSpace s5] by auto
  have "cleanSrtText r = r"
    using removeTags_id [OF rt] removeBraces_id [OF rb] removeZeroWidth_id [OF rz]
      stripTrailing_id [OF rw] tabs_id [OF rf] newlines_id [OF rw] trimEnd_id [OF rw]
      trimStart_id [OF rs]
    by (simp add: cleanSrtText_def Let_def trim_def)
  then show ?thesis by (simp add: clean)
qed


theorem cleanSrtText_idempotent_witness:
  "cleanSrtText (cleanSrtText (str ''<i>a  </i>\<newline>\<newline>\<newline> {an8}b<>c> '')) =
     cleanSrtText (str ''<i>a  </i>\<newline>\<newline>\<newline> {an8}b<>c> '') \<and>
   cleanSrtText (str ''<i>a  </i>\<newline>\<newline>\<newline> {an8}b<>c> '') = str ''a\<newline> b<>c>''"
proof -
  have "cleanSrtText (str ''<i>a  </i>\<newline>\<newline>\<newline> {an8}b<>c> '') = str ''a\<newline> b<>c>''"
    by code_simp
  then show ?thesis
    using cleanSrtText_idempotent [of "str ''<i>a  </i>\<newline>\<newline>\<newline> {an8}b<>c> ''"]
    by blast
qed


end
